theory Spec2Isabelle
  imports Complex_Main "HOL-Library.AList"
begin

section \<open>Conventions\<close>

text \<open>
  The model follows the Python sources \<open>vector_db_pool.py\<close>, \<open>vector_db_bridge.py\<close> and
  \<open>odbc_bridge.py\<close>. An object is a record of its fields and a method is a function that
  takes the object and returns it updated; a raised exception is the left injection of a
  sum. Python integers are \<open>int\<close>. Times, durations and delays are Python floats and are
  modelled as \<open>real\<close>, with exact arithmetic. A method that reads the clock takes the value
  read as an argument. Each object is used by one caller at a time, as under its lock.
\<close>

section \<open>Exceptions\<close>

text \<open>
  The classes of exception that the resilience layer raises or classifies.
  \<open>ConnectionError\<close> and \<open>TimeoutError\<close> are subclasses of \<open>OSError\<close>;
  \<open>OtherError\<close> stands for every other subclass of \<open>Exception\<close> an operation may raise.
  Every class here derives from \<open>Exception\<close>, so an \<open>except Exception\<close> clause
  catches all of them. The string is the exception's message; the breaker's rejection
  also carries the retry-after estimate that its message is formatted from.
\<close>

datatype exn =
    ConnectionError string
  | TimeoutError string
  | OSError string
  | ValueError string
  | TypeError string
  | OtherError string
  | CircuitBreakerOpen real
  | PoolExhaustedError int int

text \<open>The clause \<open>except (ConnectionError, TimeoutError, OSError)\<close> of \<open>execute_with_retry\<close>.\<close>

fun is_transient :: "exn \<Rightarrow> bool" where
  "is_transient (ConnectionError m) = True"
| "is_transient (TimeoutError m) = True"
| "is_transient (OSError m) = True"
| "is_transient e = False"

section \<open>CircuitBreaker (vector\_db\_pool.py)\<close>

datatype breaker_state = CLOSED | OPEN | HALF_OPEN

text \<open>
  The fields of a \<open>CircuitBreaker\<close> object. \<open>last_failure_time\<close> is \<open>None\<close> until the
  first failure is recorded. Every method that calls \<open>time.time()\<close> takes the value
  read from the clock as its argument \<open>now\<close>.
\<close>

record circuit_breaker =
  failure_threshold :: int
  success_threshold :: int
  timeout_seconds :: real
  state :: breaker_state
  failure_count :: int
  success_count :: int
  last_failure_time :: "real option"

definition CircuitBreaker_init :: "int \<Rightarrow> int \<Rightarrow> real \<Rightarrow> circuit_breaker" where
  "CircuitBreaker_init ft st ts =
     \<lparr>failure_threshold = ft, success_threshold = st, timeout_seconds = ts,
      state = CLOSED, failure_count = 0, success_count = 0, last_failure_time = None\<rparr>"

text \<open>
  \<open>can_execute\<close>: the answer and the breaker after the call. In state \<open>OPEN\<close> the
  subtraction \<open>time.time() - self._last_failure_time\<close> raises \<open>TypeError\<close> when no
  failure time has been stored.
\<close>

definition can_execute :: "circuit_breaker \<Rightarrow> real \<Rightarrow> exn + (bool \<times> circuit_breaker)" where
  "can_execute b now =
     (if state b = CLOSED then Inr (True, b)
      else if state b = OPEN then
        (case last_failure_time b of
           None \<Rightarrow> Inl (TypeError ''unsupported operand type(s) for -'')
         | Some t \<Rightarrow>
             if now - t \<ge> timeout_seconds b
             then Inr (True, b\<lparr>state := HALF_OPEN, success_count := 0\<rparr>)
             else Inr (False, b))
      else Inr (True, b))"

definition record_success :: "circuit_breaker \<Rightarrow> circuit_breaker" where
  "record_success b =
     (if state b = HALF_OPEN then
        (let b1 = b\<lparr>success_count := success_count b + 1\<rparr>
         in if success_count b1 \<ge> success_threshold b1
            then b1\<lparr>state := CLOSED, failure_count := 0\<rparr>
            else b1)
      else if state b = CLOSED then b\<lparr>failure_count := 0\<rparr>
      else b)"

definition record_failure :: "circuit_breaker \<Rightarrow> real \<Rightarrow> circuit_breaker" where
  "record_failure b now =
     (let b1 = b\<lparr>failure_count := failure_count b + 1, last_failure_time := Some now\<rparr>
      in if state b1 = HALF_OPEN then b1\<lparr>state := OPEN\<rparr>
         else if state b1 = CLOSED \<and> failure_count b1 \<ge> failure_threshold b1
              then b1\<lparr>state := OPEN\<rparr>
         else b1)"

definition retry_after :: "circuit_breaker \<Rightarrow> real \<Rightarrow> real" where
  "retry_after b now =
     (case last_failure_time b of
        None \<Rightarrow> 0
      | Some t \<Rightarrow> max 0 (timeout_seconds b - (now - t)))"

text \<open>
  \<open>__enter__\<close>: \<open>now\<close> is the clock value read by \<open>can_execute\<close>, \<open>now_msg\<close> the
  one read by \<open>_retry_after\<close> while the rejection's message is built.
\<close>

definition breaker_enter ::
  "circuit_breaker \<Rightarrow> real \<Rightarrow> real \<Rightarrow> (exn + unit) \<times> circuit_breaker" where
  "breaker_enter b now now_msg =
     (case can_execute b now of
        Inl e \<Rightarrow> (Inl e, b)
      | Inr (ok, b') \<Rightarrow>
          if \<not> ok then (Inl (CircuitBreakerOpen (retry_after b' now_msg)), b')
          else (Inr (), b'))"

text \<open>\<open>__exit__\<close>: \<open>raised\<close> says whether the body of the \<open>with\<close> block raised.\<close>

definition breaker_exit :: "circuit_breaker \<Rightarrow> bool \<Rightarrow> real \<Rightarrow> circuit_breaker" where
  "breaker_exit b raised now =
     (if \<not> raised then record_success b else record_failure b now)"

text \<open>A run of consecutive \<open>record_failure\<close> calls, one per clock reading.\<close>

fun record_failures :: "circuit_breaker \<Rightarrow> real list \<Rightarrow> circuit_breaker" where
  "record_failures b [] = b"
| "record_failures b (t # ts) = record_failures (record_failure b t) ts"

text \<open>
  A run of consecutive \<open>can_execute\<close> calls, one per clock reading: the answers in
  order and the breaker after the last call. An exception ends the run.
\<close>

fun poll :: "circuit_breaker \<Rightarrow> real list \<Rightarrow> (exn + bool) list \<times> circuit_breaker" where
  "poll b [] = ([], b)"
| "poll b (now # nows) =
     (case can_execute b now of
        Inl e \<Rightarrow> ([Inl e], b)
      | Inr (ok, b') \<Rightarrow> (let (rs, b'') = poll b' nows in (Inr ok # rs, b'')))"

section \<open>QueryCache (vector\_db\_pool.py)\<close>

text \<open>
  A cache entry is the dictionary \<open>{"results": ..., "timestamp": ...}\<close>. The cache's
  dictionary \<open>_cache\<close> is an association list in insertion order, because \<open>min\<close>
  breaks ties by iteration order: assigning to a key that is present replaces the value
  in place, assigning to a new key appends (\<open>AList.update\<close>), and \<open>del\<close> and \<open>pop\<close>
  remove the key (\<open>AList.delete\<close>). The method arguments \<open>(query, top_k, filter)\<close>
  reach the dictionary only through \<open>_make_key\<close>, a pure function of them; the model
  takes the resulting key.
\<close>

record 'v cache_entry =
  results :: 'v
  timestamp :: real

record ('k, 'v) query_cache =
  max_size :: int
  ttl_seconds :: real
  cache :: "('k \<times> 'v cache_entry) list"
  hits :: int
  misses :: int

definition QueryCache_init :: "int \<Rightarrow> real \<Rightarrow> ('k, 'v) query_cache" where
  "QueryCache_init ms ttl =
     \<lparr>max_size = ms, ttl_seconds = ttl, cache = [], hits = 0, misses = 0\<rparr>"

text \<open>
  Python's \<open>min(xs, key=f)\<close>: the first element whose key is smallest; on an empty
  sequence it raises \<open>ValueError\<close>, here \<open>None\<close>.
\<close>

fun min_by :: "('a \<Rightarrow> real) \<Rightarrow> 'a list \<Rightarrow> 'a option" where
  "min_by f [] = None"
| "min_by f (x # xs) = Some (foldl (\<lambda>best y. if f y < f best then y else best) x xs)"

text \<open>
  \<open>min(self._cache.keys(), key=lambda k: self._cache[k]["timestamp"])\<close>: the keys are
  visited in dictionary order, each with its own entry's timestamp.
\<close>

definition oldest_key :: "('k, 'v) query_cache \<Rightarrow> 'k option" where
  "oldest_key c = map_option fst (min_by (\<lambda>(k, e). timestamp e) (cache c))"

definition QueryCache_get ::
  "('k, 'v) query_cache \<Rightarrow> real \<Rightarrow> 'k \<Rightarrow> 'v option \<times> ('k, 'v) query_cache" where
  "QueryCache_get c now key =
     (case map_of (cache c) key of
        None \<Rightarrow> (None, c\<lparr>misses := misses c + 1\<rparr>)
      | Some cached \<Rightarrow>
          if now - timestamp cached > ttl_seconds c
          then (None, c\<lparr>cache := AList.delete key (cache c), misses := misses c + 1\<rparr>)
          else (Some (results cached), c\<lparr>hits := hits c + 1\<rparr>))"

definition QueryCache_set ::
  "('k, 'v) query_cache \<Rightarrow> real \<Rightarrow> 'k \<Rightarrow> 'v \<Rightarrow> exn + ('k, 'v) query_cache" where
  "QueryCache_set c now key res =
     (if int (length (cache c)) \<ge> max_size c then
        (case oldest_key c of
           None \<Rightarrow> Inl (ValueError ''min() arg is an empty sequence'')
         | Some k \<Rightarrow>
             Inr (c\<lparr>cache := AList.update key \<lparr>results = res, timestamp = now\<rparr>
                                (AList.delete k (cache c))\<rparr>))
      else Inr (c\<lparr>cache := AList.update key \<lparr>results = res, timestamp = now\<rparr> (cache c)\<rparr>))"

definition QueryCache_invalidate :: "('k, 'v) query_cache \<Rightarrow> 'k \<Rightarrow> ('k, 'v) query_cache" where
  "QueryCache_invalidate c key = c\<lparr>cache := AList.delete key (cache c)\<rparr>"

definition QueryCache_clear :: "('k, 'v) query_cache \<Rightarrow> ('k, 'v) query_cache" where
  "QueryCache_clear c = c\<lparr>cache := []\<rparr>"

text \<open>The keys of a dictionary are distinct; every cache operation keeps them so.\<close>

definition cache_wf :: "('k, 'v) query_cache \<Rightarrow> bool" where
  "cache_wf c = distinct (map fst (cache c))"

section \<open>RequestMetrics and the retrying ConnectionPool (vector\_db\_pool.py)\<close>

text \<open>
  A sample of \<open>latency_history\<close> is (timestamp, latency in ms, success). The history is
  a \<open>deque(maxlen=100)\<close>: appending to a full deque drops its oldest element.
\<close>

record request_metrics =
  total_requests :: int
  successful_requests :: int
  failed_requests :: int
  total_latency_ms :: real
  latency_history :: "(real \<times> real \<times> bool) list"

definition RequestMetrics_init :: request_metrics where
  "RequestMetrics_init =
     \<lparr>total_requests = 0, successful_requests = 0, failed_requests = 0,
      total_latency_ms = 0, latency_history = []\<rparr>"

definition deque_append :: "'a list \<Rightarrow> 'a \<Rightarrow> 'a list" where
  "deque_append xs x = (let ys = xs @ [x] in drop (length ys - 100) ys)"

definition metrics_record_success :: "request_metrics \<Rightarrow> real \<Rightarrow> real \<Rightarrow> request_metrics" where
  "metrics_record_success m stamp latency =
     m\<lparr>total_requests := total_requests m + 1,
       successful_requests := successful_requests m + 1,
       total_latency_ms := total_latency_ms m + latency,
       latency_history := deque_append (latency_history m) (stamp, latency, True)\<rparr>"

definition metrics_record_failure :: "request_metrics \<Rightarrow> real \<Rightarrow> real \<Rightarrow> request_metrics" where
  "metrics_record_failure m stamp latency =
     m\<lparr>total_requests := total_requests m + 1,
       failed_requests := failed_requests m + 1,
       latency_history := deque_append (latency_history m) (stamp, latency, False)\<rparr>"

text \<open>
  What the pool does to its surroundings, in order: taking and giving back a permit of
  the semaphore \<open>_available\<close>, an acquisition that timed out, one call of the wrapped
  operation, and one call of \<open>time.sleep\<close> with its argument.
\<close>

datatype pool_event = Acquire | AcquireTimeout | Invoke | Release | Sleep real

text \<open>
  The fields of the retrying \<open>ConnectionPool\<close>; \<open>available\<close> is the value of the
  semaphore and \<open>trace\<close> the log of events so far (the log is not a field of the
  source; it records the calls the source makes).
\<close>

record connection_pool =
  max_connections :: int
  connection_timeout :: real
  max_retries :: int
  retry_base_delay :: real
  retry_max_delay :: real
  metrics :: request_metrics
  healthy :: bool
  available :: int
  trace :: "pool_event list"

definition ConnectionPool_init :: "int \<Rightarrow> real \<Rightarrow> int \<Rightarrow> real \<Rightarrow> real \<Rightarrow> connection_pool" where
  "ConnectionPool_init mc ct mr bd md =
     \<lparr>max_connections = mc, connection_timeout = ct, max_retries = mr,
      retry_base_delay = bd, retry_max_delay = md, metrics = RequestMetrics_init,
      healthy = True, available = mc, trace = []\<rparr>"

text \<open>
  What one call of \<open>execute_with_retry\<close> meets from outside, per attempt (numbered
  from 0): whether \<open>acquire(timeout=...)\<close> obtained a permit, the latency the two
  clock readings of the attempt give, and the time stamp of its history sample.
\<close>

record attempt_env =
  permit :: "nat \<Rightarrow> bool"
  latency_ms :: "nat \<Rightarrow> real"
  stamp :: "nat \<Rightarrow> real"

text \<open>
  The wrapped operation is a zero-argument callable with effects on the backend: a
  function from the backend's state to its outcome and the new state.
\<close>

type_synonym ('a, 'w) operation = "'w \<Rightarrow> (exn + 'a) \<times> 'w"

text \<open>How one pass through the body of the \<open>for\<close> loop ends.\<close>

datatype 'a attempt_end = Finished "exn + 'a" | Retry exn

definition log_event :: "connection_pool \<Rightarrow> pool_event list \<Rightarrow> connection_pool" where
  "log_event p evs = p\<lparr>trace := trace p @ evs\<rparr>"

definition backoff_delay :: "connection_pool \<Rightarrow> nat \<Rightarrow> real" where
  "backoff_delay p attempt = min (retry_base_delay p * 2 ^ attempt) (retry_max_delay p)"

text \<open>
  The handler \<open>except (ConnectionError, TimeoutError, OSError)\<close>: record the failure,
  then either sleep and go on, or mark the pool unhealthy and re-raise.
  \<open>time.sleep\<close> raises \<open>ValueError\<close> on a negative argument.
\<close>

definition handle_transient ::
  "attempt_env \<Rightarrow> nat \<Rightarrow> exn \<Rightarrow> connection_pool \<Rightarrow> 'a attempt_end \<times> connection_pool" where
  "handle_transient env attempt e p =
     (let p1 = p\<lparr>metrics := metrics_record_failure (metrics p) (stamp env attempt)
                               (latency_ms env attempt)\<rparr>
      in if int attempt < max_retries p1 then
           (let delay = backoff_delay p1 attempt
            in if delay < 0
               then (Finished (Inl (ValueError ''sleep length must be non-negative'')), p1)
               else (Retry e, log_event p1 [Sleep delay]))
         else (Finished (Inl e), p1\<lparr>healthy := False\<rparr>))"

text \<open>The body of the loop for one value of \<open>attempt\<close>.\<close>

definition run_attempt ::
  "attempt_env \<Rightarrow> ('a, 'w) operation \<Rightarrow> nat \<Rightarrow> connection_pool \<times> 'w \<Rightarrow>
     'a attempt_end \<times> connection_pool \<times> 'w" where
  "run_attempt env operation attempt pw =
     (let (p, w) = pw in
      if \<not> permit env attempt then
        (let (r, p') = handle_transient env attempt (TimeoutError ''Connection pool exhausted'')
                         (log_event p [AcquireTimeout])
         in (r, p', w))
      else
        (let p1 = log_event (p\<lparr>available := available p - 1\<rparr>) [Acquire, Invoke];
             (r, w') = operation w
         in case r of
              Inr result \<Rightarrow>
                (let p2 = p1\<lparr>metrics := metrics_record_success (metrics p1) (stamp env attempt)
                                           (latency_ms env attempt),
                              healthy := True\<rparr>;
                     p3 = log_event (p2\<lparr>available := available p2 + 1\<rparr>) [Release]
                 in (Finished (Inr result), p3, w'))
            | Inl e \<Rightarrow>
                (let p2 = log_event (p1\<lparr>available := available p1 + 1\<rparr>) [Release]
                 in if is_transient e then
                      (let (r', p') = handle_transient env attempt e p2 in (r', p', w'))
                    else
                      (Finished (Inl e),
                       p2\<lparr>metrics := metrics_record_failure (metrics p2) (stamp env attempt)
                                        (latency_ms env attempt)\<rparr>,
                       w'))))"

text \<open>
  The loop \<open>for attempt in range(self.max_retries + 1)\<close> and the \<open>raise last_exception\<close>
  after it, which raises \<open>TypeError\<close> when \<open>last_exception\<close> is still \<open>None\<close>.
  The argument of \<open>range\<close> is evaluated once, before the first pass: it is \<open>bound\<close>.
\<close>

function retry_loop ::
  "attempt_env \<Rightarrow> ('a, 'w) operation \<Rightarrow> int \<Rightarrow> nat \<Rightarrow> exn option \<Rightarrow> connection_pool \<times> 'w \<Rightarrow>
     (exn + 'a) \<times> connection_pool \<times> 'w" where
  "retry_loop env operation bound attempt last_exception pw =
     (if int attempt < bound then
        (case run_attempt env operation attempt pw of
           (Finished r, pw') \<Rightarrow> (r, pw')
         | (Retry e, pw') \<Rightarrow> retry_loop env operation bound (Suc attempt) (Some e) pw')
      else
        (case last_exception of
           None \<Rightarrow> (Inl (TypeError ''exceptions must derive from BaseException''), pw)
         | Some e \<Rightarrow> (Inl e, pw)))"
  by pat_completeness auto
termination
  by (relation "measure (\<lambda>(env, operation, bound, attempt, last_exception, pw).
                  nat bound - attempt)") auto

definition execute_with_retry ::
  "attempt_env \<Rightarrow> ('a, 'w) operation \<Rightarrow> connection_pool \<times> 'w \<Rightarrow>
     (exn + 'a) \<times> connection_pool \<times> 'w" where
  "execute_with_retry env operation pw =
     retry_loop env operation (max_retries (fst pw) + 1) 0 None pw"

declare retry_loop.simps [simp del]

text \<open>
  What attempt number \<open>attempt\<close> produces before it is classified: the
  \<open>TimeoutError\<close> of a permit that was not obtained, or the outcome of the operation.
\<close>

definition attempt_outcome ::
  "attempt_env \<Rightarrow> ('a, 'w) operation \<Rightarrow> nat \<Rightarrow> 'w \<Rightarrow> (exn + 'a) \<times> 'w" where
  "attempt_outcome env operation attempt w =
     (if \<not> permit env attempt then (Inl (TimeoutError ''Connection pool exhausted''), w)
      else operation w)"

text \<open>
  \<open>transient_failures env operation i k w\<close>: the attempts \<open>i\<close>, \<open>i + 1\<close>, ...,
  \<open>i + k - 1\<close>, run one after the other from backend state \<open>w\<close>, each end in a transient
  error; the result is the list of these errors and the backend state after the last.
\<close>

fun transient_failures ::
  "attempt_env \<Rightarrow> ('a, 'w) operation \<Rightarrow> nat \<Rightarrow> nat \<Rightarrow> 'w \<Rightarrow> (exn list \<times> 'w) option" where
  "transient_failures env operation i 0 w = Some ([], w)"
| "transient_failures env operation i (Suc n) w =
     (case attempt_outcome env operation i w of
        (Inr v, w') \<Rightarrow> None
      | (Inl e, w') \<Rightarrow>
          if is_transient e then
            (case transient_failures env operation (Suc i) n w' of
               None \<Rightarrow> None
             | Some (es, w'') \<Rightarrow> Some (e # es, w''))
          else None)"

text \<open>The events one attempt logs, apart from a sleep that may follow it.\<close>

definition attempt_block :: "attempt_env \<Rightarrow> nat \<Rightarrow> pool_event list" where
  "attempt_block env attempt =
     (if permit env attempt then [Acquire, Invoke, Release] else [AcquireTimeout])"

text \<open>
  The shape of the events of one call: a block per attempt, numbered from \<open>i\<close>, any two
  consecutive blocks separated by exactly one \<open>Sleep\<close> whose argument is \<open>d\<close> of the
  number of the earlier attempt, and no \<open>Sleep\<close> after the last block.
\<close>

fun retry_trace :: "(nat \<Rightarrow> real) \<Rightarrow> nat \<Rightarrow> pool_event list \<Rightarrow> bool" where
  "retry_trace d i [AcquireTimeout] = True"
| "retry_trace d i [Acquire, Invoke, Release] = True"
| "retry_trace d i (AcquireTimeout # Sleep x # rest) = (x = d i \<and> retry_trace d (Suc i) rest)"
| "retry_trace d i (Acquire # Invoke # Release # Sleep x # rest) =
     (x = d i \<and> retry_trace d (Suc i) rest)"
| "retry_trace d i evs = False"

text \<open>The arguments of the sleeps in a log, the number of invocations in it, and the
  events a call added to the log.\<close>

fun sleeps :: "pool_event list \<Rightarrow> real list" where
  "sleeps [] = []"
| "sleeps (Sleep x # evs) = x # sleeps evs"
| "sleeps (ev # evs) = sleeps evs"

definition invocations :: "pool_event list \<Rightarrow> nat" where
  "invocations evs = length (filter (\<lambda>ev. ev = Invoke) evs)"

definition new_events :: "connection_pool \<Rightarrow> connection_pool \<Rightarrow> pool_event list" where
  "new_events p p' = drop (length (trace p)) (trace p')"

text \<open>
  The pool after \<open>k\<close> attempts, numbered from \<open>i\<close>, that each failed with a transient
  error and were followed by a sleep: each records one failure and logs its block and
  its sleep.
\<close>

fun failed_attempts :: "attempt_env \<Rightarrow> connection_pool \<Rightarrow> nat \<Rightarrow> nat \<Rightarrow> connection_pool" where
  "failed_attempts env p i 0 = p"
| "failed_attempts env p i (Suc k) =
     failed_attempts env
       (p\<lparr>metrics := metrics_record_failure (metrics p) (stamp env i) (latency_ms env i),
          trace := trace p @ attempt_block env i @ [Sleep (backoff_delay p i)]\<rparr>)
       (Suc i) k"

section \<open>VectorDBBridge (vector\_db\_bridge.py)\<close>

text \<open>
  The bridge holds the pool, the cache (\<open>None\<close> when built with \<open>enable_cache=False\<close>)
  and the breaker of its backend. A \<open>QueryCache\<close> object defines neither \<open>__bool__\<close>
  nor \<open>__len__\<close>, so the test \<open>if self._cache\<close> is true exactly when the cache is
  not \<open>None\<close>.
\<close>

record ('k, 'v) bridge =
  bridge_pool :: connection_pool
  bridge_cache :: "('k, 'v) query_cache option"
  bridge_breaker :: circuit_breaker

text \<open>
  The clock readings one guarded call can make: by \<open>cache.get\<close>, by \<open>can_execute\<close>
  on entering the guard, by \<open>_retry_after\<close> when the call is denied, by \<open>cache.set\<close>,
  and by \<open>record_failure\<close> on leaving the guard.
\<close>

record call_clock =
  at_get :: real
  at_enter :: real
  at_deny :: real
  at_set :: real
  at_exit :: real

text \<open>
  \<open>_with_circuit_breaker\<close>: \<open>with self._breaker: return operation()\<close>. The operation
  works on the state \<open>s\<close> outside the breaker. When \<open>__enter__\<close> raises, neither the body
  nor \<open>__exit__\<close> runs; \<open>__exit__\<close> returns \<open>False\<close>, so an exception of the body is
  passed on.
\<close>

definition with_circuit_breaker ::
  "call_clock \<Rightarrow> ('a, 's) operation \<Rightarrow> circuit_breaker \<times> 's \<Rightarrow>
     (exn + 'a) \<times> circuit_breaker \<times> 's" where
  "with_circuit_breaker clk operation bs =
     (let (b, s) = bs in
      case breaker_enter b (at_enter clk) (at_deny clk) of
        (Inl e, b') \<Rightarrow> (Inl e, b', s)
      | (Inr u, b') \<Rightarrow>
          (let (r, s') = operation s
           in (r, breaker_exit b' (isl r) (at_exit clk), s')))"

text \<open>\<open>_with_retry\<close>: the operation run by the pool's \<open>execute_with_retry\<close>.\<close>

definition with_retry ::
  "attempt_env \<Rightarrow> ('a, 'w) operation \<Rightarrow> connection_pool \<times> 'w \<Rightarrow>
     (exn + 'a) \<times> connection_pool \<times> 'w" where
  "with_retry env operation pw = execute_with_retry env operation pw"

text \<open>
  \<open>add\<close>: the breaker guards \<open>_add_impl\<close>, which hands the backend call to
  \<open>_with_retry\<close>. The backend call (the dispatch on \<open>backend_name\<close> to a vendor client)
  is the operation \<open>backend\<close> on the backend's state \<open>w\<close>.
\<close>

definition add_impl ::
  "attempt_env \<Rightarrow> ('a, 'w) operation \<Rightarrow> ('a, connection_pool \<times> 'w) operation" where
  "add_impl env backend = (\<lambda>pw. let (r, pw') = with_retry env backend pw in (r, pw'))"

definition add ::
  "call_clock \<Rightarrow> attempt_env \<Rightarrow> ('a, 'w) operation \<Rightarrow> ('k, 'v) bridge \<times> 'w \<Rightarrow>
     (exn + 'a) \<times> ('k, 'v) bridge \<times> 'w" where
  "add clk env backend bw =
     (let (br, w) = bw;
          (r, b', p', w') =
            with_circuit_breaker clk (add_impl env backend) (bridge_breaker br, bridge_pool br, w)
      in (r, br\<lparr>bridge_breaker := b', bridge_pool := p'\<rparr>, w'))"

text \<open>
  The inner function \<open>operation\<close> of \<open>search\<close>: the backend call, then the write to the
  cache. It works on the cache and the backend.
\<close>

definition search_operation ::
  "call_clock \<Rightarrow> ('v, 'w) operation \<Rightarrow> 'k \<Rightarrow> bool \<Rightarrow>
     ('v, ('k, 'v) query_cache option \<times> 'w) operation" where
  "search_operation clk backend key use_cache =
     (\<lambda>(co, w).
        let (r, w') = backend w in
        case r of
          Inl e \<Rightarrow> (Inl e, co, w')
        | Inr res \<Rightarrow>
            (case co of
               Some c \<Rightarrow>
                 if use_cache then
                   (case QueryCache_set c (at_set clk) key res of
                      Inl e \<Rightarrow> (Inl e, co, w')
                    | Inr c' \<Rightarrow> (Inr res, Some c', w'))
                 else (Inr res, co, w')
             | None \<Rightarrow> (Inr res, co, w')))"

text \<open>
  The part of \<open>search\<close> after the cache lookup: the guarded call, and the handler
  \<open>except Exception\<close> that invalidates the key and re-raises.
\<close>

definition search_guarded ::
  "call_clock \<Rightarrow> ('v, 'w) operation \<Rightarrow> 'k \<Rightarrow> bool \<Rightarrow> ('k, 'v) bridge \<times> 'w \<Rightarrow>
     (exn + 'v) \<times> ('k, 'v) bridge \<times> 'w" where
  "search_guarded clk backend key use_cache bw =
     (let (br, w) = bw;
          (r, b', co', w') =
            with_circuit_breaker clk (search_operation clk backend key use_cache)
              (bridge_breaker br, bridge_cache br, w);
          br' = br\<lparr>bridge_breaker := b', bridge_cache := co'\<rparr>
      in case r of
           Inr res \<Rightarrow> (Inr res, br', w')
         | Inl e \<Rightarrow>
             (case bridge_cache br' of
                Some c \<Rightarrow> (Inl e, br'\<lparr>bridge_cache := Some (QueryCache_invalidate c key)\<rparr>, w')
              | None \<Rightarrow> (Inl e, br', w')))"

definition search ::
  "call_clock \<Rightarrow> ('v, 'w) operation \<Rightarrow> 'k \<Rightarrow> bool \<Rightarrow> ('k, 'v) bridge \<times> 'w \<Rightarrow>
     (exn + 'v) \<times> ('k, 'v) bridge \<times> 'w" where
  "search clk backend key use_cache bw =
     (let (br, w) = bw in
      case bridge_cache br of
        Some c \<Rightarrow>
          if use_cache then
            (let (cached, c') = QueryCache_get c (at_get clk) key;
                 br' = br\<lparr>bridge_cache := Some c'\<rparr>
             in case cached of
                  Some res \<Rightarrow> (Inr res, br', w)
                | None \<Rightarrow> search_guarded clk backend key use_cache (br', w))
          else search_guarded clk backend key use_cache (br, w)
      | None \<Rightarrow> search_guarded clk backend key use_cache (br, w))"

section \<open>The ODBC ConnectionPool (odbc\_bridge.py)\<close>

text \<open>
  What the list \<open>_pool\<close> holds and what a \<open>PooledConnection\<close> wraps: a raw driver
  connection, or a \<open>PooledConnection\<close> that was returned (\<open>return_connection\<close> appends
  the wrapper it is given, and \<open>get_connection\<close> wraps what it pops).
\<close>

datatype 'c handle = Raw 'c | Wrapper "'c handle"

record 'c pooled_connection =
  conn :: "'c handle"
  is_closed :: bool

record 'c odbc_pool =
  max_pool_size :: int
  pool :: "'c handle list"
  active :: int

definition odbc_pool_init :: "int \<Rightarrow> 'c odbc_pool" where
  "odbc_pool_init mx = \<lparr>max_pool_size = mx, pool = [], active = 0\<rparr>"

definition active_count :: "'c odbc_pool \<Rightarrow> int" where
  "active_count p = active p"

definition available_count :: "'c odbc_pool \<Rightarrow> int" where
  "available_count p = int (length (pool p))"

text \<open>
  \<open>get_connection\<close>; \<open>created\<close> is what \<open>_create_connection\<close> gives if it is called:
  the new driver connection, or the exception of the driver.
\<close>

definition get_connection ::
  "'c odbc_pool \<Rightarrow> exn + 'c \<Rightarrow> (exn + 'c pooled_connection) \<times> 'c odbc_pool" where
  "get_connection p created =
     (if pool p \<noteq> [] then
        (Inr \<lparr>conn = last (pool p), is_closed = False\<rparr>, p\<lparr>pool := butlast (pool p)\<rparr>)
      else if active p \<ge> max_pool_size p then
        (Inl (PoolExhaustedError (active p) (max_pool_size p)), p)
      else
        (case created of
           Inl e \<Rightarrow> (Inl e, p)
         | Inr c \<Rightarrow> (Inr \<lparr>conn = Raw c, is_closed = False\<rparr>, p\<lparr>active := active p + 1\<rparr>)))"

definition return_connection :: "'c odbc_pool \<Rightarrow> 'c pooled_connection \<Rightarrow> 'c odbc_pool" where
  "return_connection p pc =
     (if active p > 0 then p\<lparr>pool := pool p @ [Wrapper (conn pc)]\<rparr> else p)"

text \<open>\<open>PooledConnection.close\<close>: the pool and the wrapper after the call.\<close>

definition close :: "'c odbc_pool \<Rightarrow> 'c pooled_connection \<Rightarrow> 'c odbc_pool \<times> 'c pooled_connection" where
  "close p pc =
     (if \<not> is_closed pc then (return_connection p pc, pc\<lparr>is_closed := True\<rparr>) else (p, pc))"

text \<open>
  A sequence of operations on one pool: acquisitions (each with the outcome that
  creating a connection would have) and closings of the wrappers handed out so far,
  named by their position in the order of acquisition. The state is the pool and the
  wrappers handed out.
\<close>

datatype 'c pool_op = Acquire_op "exn + 'c" | Close_op nat

fun pool_step ::
  "'c odbc_pool \<times> 'c pooled_connection list \<Rightarrow> 'c pool_op \<Rightarrow>
     'c odbc_pool \<times> 'c pooled_connection list" where
  "pool_step (p, ws) (Acquire_op created) =
     (case get_connection p created of
        (Inl e, p') \<Rightarrow> (p', ws)
      | (Inr pc, p') \<Rightarrow> (p', ws @ [pc]))"
| "pool_step (p, ws) (Close_op i) =
     (if i < length ws
      then (let (p', pc') = close p (ws ! i) in (p', ws[i := pc']))
      else (p, ws))"

definition pool_run ::
  "'c odbc_pool \<Rightarrow> 'c pool_op list \<Rightarrow> 'c odbc_pool \<times> 'c pooled_connection list" where
  "pool_run p ops = foldl pool_step (p, []) ops"

text \<open>The wrappers handed out and not yet closed: the connections checked out.\<close>

definition checked_out :: "'c pooled_connection list \<Rightarrow> int" where
  "checked_out ws = int (length (filter (\<lambda>pc. \<not> is_closed pc) ws))"

text \<open>
  The bookkeeping of the pool and of the wrappers handed out: the counter \<open>_active\<close> is
  the number of idle connections plus the number of connections checked out.
\<close>

definition pool_inv :: "'c odbc_pool \<times> 'c pooled_connection list \<Rightarrow> bool" where
  "pool_inv s = (active (fst s) = int (length (pool (fst s))) + checked_out (snd s))"

section \<open>Example states\<close>

text \<open>
  Caches used as concrete inputs below: one entry inserted at time 0 with a TTL of 300
  seconds; an empty cache built with \<open>max_size = 0\<close>; a cache holding \<open>max_size = 3\<close>
  entries, two of which share the smallest timestamp.
\<close>

definition fresh_boundary_cache :: "(nat, string) query_cache" where
  "fresh_boundary_cache =
     \<lparr>max_size = 10, ttl_seconds = 300,
      cache = [(1, \<lparr>results = ''r'', timestamp = 0\<rparr>)], hits = 0, misses = 0\<rparr>"

definition zero_capacity_cache :: "(nat, string) query_cache" where
  "zero_capacity_cache = QueryCache_init 0 300"

definition full_cache :: "(nat, string) query_cache" where
  "full_cache =
     \<lparr>max_size = 3, ttl_seconds = 300,
      cache = [(1, \<lparr>results = ''a'', timestamp = 5\<rparr>),
               (2, \<lparr>results = ''b'', timestamp = 2\<rparr>),
               (3, \<lparr>results = ''c'', timestamp = 2\<rparr>)],
      hits = 0, misses = 0\<rparr>"

text \<open>
  Inputs for the retrying pool: an environment in which every permit is granted; an
  operation on a backend that counts its invocations and raises \<open>ConnectionError\<close> on
  the first \<open>k\<close> of them, then returns; one that raises \<open>ConnectionError\<close> on the first
  \<open>k\<close> and \<open>ValueError\<close> afterwards; and a pool with \<open>max_retries = 2\<close>,
  \<open>retry_base_delay = 0.1\<close> and \<open>retry_max_delay = 10\<close>.
\<close>

definition calm_env :: attempt_env where
  "calm_env = \<lparr>permit = (\<lambda>i. True), latency_ms = (\<lambda>i. 5), stamp = (\<lambda>i. real i)\<rparr>"

definition flaky :: "nat \<Rightarrow> (string, nat) operation" where
  "flaky k = (\<lambda>n. (if n < k then Inl (ConnectionError ''reset'') else Inr ''ok'', Suc n))"

definition rejecting :: "nat \<Rightarrow> (string, nat) operation" where
  "rejecting k =
     (\<lambda>n. (if n < k then Inl (ConnectionError ''reset'') else Inl (ValueError ''bad query''),
           Suc n))"

definition small_pool :: connection_pool where
  "small_pool = ConnectionPool_init 10 30 2 (1 / 10) 10"

text \<open>
  Inputs for the bridge: a bridge with the small pool, an empty cache and a new breaker;
  the clock readings of one call; the same bridge with keys 7 and 8 cached; and a new
  ODBC pool with \<open>max_pool_size = 2\<close>.
\<close>

definition example_bridge :: "(nat, string) bridge" where
  "example_bridge =
     \<lparr>bridge_pool = small_pool, bridge_cache = Some (QueryCache_init 1000 300),
      bridge_breaker = CircuitBreaker_init 5 3 30\<rparr>"

definition example_clock :: call_clock where
  "example_clock = \<lparr>at_get = 100, at_enter = 100, at_deny = 100, at_set = 101, at_exit = 101\<rparr>"

definition cached_bridge :: "(nat, string) bridge" where
  "cached_bridge =
     example_bridge
       \<lparr>bridge_cache :=
          Some ((QueryCache_init 1000 300)
                  \<lparr>cache := [(7, \<lparr>results = ''old'', timestamp = 50\<rparr>),
                             (8, \<lparr>results = ''other'', timestamp = 60\<rparr>)]\<rparr>)\<rparr>"

definition fresh_pool :: "nat odbc_pool" where
  "fresh_pool = odbc_pool_init 2"

section \<open>Properties of the circuit breaker\<close>

lemma record_failure_count:
  "failure_count (record_failure b now) = failure_count b + 1"
  by (simp add: record_failure_def Let_def)

lemma record_failure_threshold:
  "failure_threshold (record_failure b now) = failure_threshold b"
  by (simp add: record_failure_def Let_def)

lemma record_failure_state:
  "state (record_failure b now) =
     (if state b = HALF_OPEN then OPEN
      else if state b = CLOSED \<and> failure_count b + 1 \<ge> failure_threshold b then OPEN
      else state b)"
  by (simp add: record_failure_def Let_def)

lemma record_failures_append:
  "record_failures b (ts @ [t]) = record_failure (record_failures b ts) t"
  by (induction ts arbitrary: b) simp_all

lemma record_failures_count:
  "failure_count (record_failures b ts) = failure_count b + int (length ts)"
  by (induction ts arbitrary: b) (simp_all add: record_failure_count)

lemma record_failures_threshold:
  "failure_threshold (record_failures b ts) = failure_threshold b"
  by (induction ts arbitrary: b) (simp_all add: record_failure_threshold)

lemma record_failures_state:
  assumes "state b = CLOSED" and "failure_count b = 0"
  shows "state (record_failures b ts) =
           (if ts = [] \<or> int (length ts) < failure_threshold b then CLOSED else OPEN)"
proof (induction ts rule: rev_induct)
  case Nil
  show ?case using assms by simp
next
  case (snoc t ts)
  have c: "failure_count (record_failures b ts) = int (length ts)"
    using assms by (simp add: record_failures_count)
  have th: "failure_threshold (record_failures b ts) = failure_threshold b"
    by (simp add: record_failures_threshold)
  show ?case
    using snoc c th
    by (auto simp add: record_failures_append record_failure_state)
qed

lemma record_success_closed:
  "state b = CLOSED \<Longrightarrow> record_success b = b\<lparr>failure_count := 0\<rparr>"
  by (simp add: record_success_def)

text \<open>
  Claim C5. Take a breaker that is Closed with no failure counted (a new breaker, or one
  on which a success was just recorded) and record failures one after the other with no
  success between them. After \<open>k\<close> of them the breaker is Closed when \<open>k = 0\<close> or
  \<open>k < failure_threshold\<close> and Open otherwise: for a threshold \<open>N \<ge> 1\<close> it is still Closed
  after fewer than \<open>N\<close> failures and the \<open>N\<close>-th one opens it. While it is still Closed,
  recording a success keeps it Closed and sets \<open>failure_count\<close> back to 0.
\<close>

theorem breaker_opens_on_nth_failure:
  assumes "state b = CLOSED" and "failure_count b = 0"
  shows "state (record_failures b ts) =
           (if ts = [] \<or> int (length ts) < failure_threshold b then CLOSED else OPEN) \<and>
         failure_count (record_failures b ts) = int (length ts) \<and>
         (state (record_failures b ts) = CLOSED \<longrightarrow>
            state (record_success (record_failures b ts)) = CLOSED \<and>
            failure_count (record_success (record_failures b ts)) = 0)"
  using assms
  by (simp add: record_failures_state record_failures_count record_success_closed)

theorem breaker_opens_on_nth_failure_witness:
  "state (CircuitBreaker_init 3 2 30) = CLOSED \<and>
   failure_count (CircuitBreaker_init 3 2 30) = 0 \<and>
   state (record_failures (CircuitBreaker_init 3 2 30) [1, 2]) = CLOSED \<and>
   state (record_failures (CircuitBreaker_init 3 2 30) [1, 2, 4]) = OPEN \<and>
   failure_count (record_success (record_failures (CircuitBreaker_init 3 2 30) [1, 2])) = 0"
proof -
  have s: "state (CircuitBreaker_init 3 2 30) = CLOSED"
    by (simp add: CircuitBreaker_init_def)
  have c: "failure_count (CircuitBreaker_init 3 2 30) = 0"
    by (simp add: CircuitBreaker_init_def)
  have t: "failure_threshold (CircuitBreaker_init 3 2 30) = 3"
    by (simp add: CircuitBreaker_init_def)
  show ?thesis
    using s c t breaker_opens_on_nth_failure [OF s c, of "[1, 2]"]
      breaker_opens_on_nth_failure [OF s c, of "[1, 2, 4]"]
    by simp
qed

lemma can_execute_open_early:
  "state b = OPEN \<Longrightarrow> last_failure_time b = Some t \<Longrightarrow> now - t < timeout_seconds b \<Longrightarrow>
   can_execute b now = Inr (False, b)"
  by (simp add: can_execute_def)

lemma can_execute_open_late:
  "state b = OPEN \<Longrightarrow> last_failure_time b = Some t \<Longrightarrow> timeout_seconds b \<le> now - t \<Longrightarrow>
   can_execute b now = Inr (True, b\<lparr>state := HALF_OPEN, success_count := 0\<rparr>)"
  by (simp add: can_execute_def)

lemma poll_early:
  "state b = OPEN \<Longrightarrow> last_failure_time b = Some t \<Longrightarrow>
   \<forall>x \<in> set early. x - t < timeout_seconds b \<Longrightarrow>
   poll b (early @ rest) = (map (\<lambda>x. Inr False) early @ fst (poll b rest), snd (poll b rest))"
  by (induction early) (simp_all add: can_execute_open_early split: prod.splits)

text \<open>
  Claim C6. Let the breaker be Open with its last failure recorded at time \<open>t\<close>. Every
  \<open>can_execute\<close> call at a time before \<open>t + timeout_seconds\<close> is denied and leaves the
  breaker as it was, so still Open; the first call at or after \<open>t + timeout_seconds\<close> is
  permitted and leaves the breaker HalfOpen with \<open>success_count\<close> 0 and every other field
  unchanged.
\<close>

theorem open_breaker_cooldown:
  assumes "state b = OPEN" and "last_failure_time b = Some t"
    and "\<forall>x \<in> set early. x - t < timeout_seconds b"
    and "timeout_seconds b \<le> now - t"
  shows "poll b early = (map (\<lambda>x. Inr False) early, b) \<and>
         poll b (early @ [now]) =
           (map (\<lambda>x. Inr False) early @ [Inr True],
            b\<lparr>state := HALF_OPEN, success_count := 0\<rparr>)"
  using assms poll_early [of b t early "[]"] poll_early [of b t early "[now]"]
  by (simp add: can_execute_open_late)

theorem open_breaker_cooldown_witness:
  "poll (record_failures (CircuitBreaker_init 2 2 1) [10, 11]) [11.5, 11.9, 12.1] =
     ([Inr False, Inr False, Inr True],
      (record_failures (CircuitBreaker_init 2 2 1) [10, 11])
        \<lparr>state := HALF_OPEN, success_count := 0\<rparr>)"
proof -
  let ?b = "record_failures (CircuitBreaker_init 2 2 1) [10, 11]"
  have s: "state ?b = OPEN"
    by (simp add: CircuitBreaker_init_def record_failure_def)
  have l: "last_failure_time ?b = Some 11"
    by (simp add: CircuitBreaker_init_def record_failure_def)
  have ts: "timeout_seconds ?b = 1"
    by (simp add: CircuitBreaker_init_def record_failure_def)
  have e: "\<forall>x \<in> set [11.5, 11.9 :: real]. x - 11 < timeout_seconds ?b"
    using ts by simp
  have n: "timeout_seconds ?b \<le> 12.1 - 11"
    using ts by simp
  show ?thesis
    using open_breaker_cooldown [OF s l e n] by simp
qed

lemma breaker_enter_denied:
  "fst (breaker_enter b now now_msg) = Inl (CircuitBreakerOpen r) \<Longrightarrow>
   breaker_enter b now now_msg = (Inl (CircuitBreakerOpen r), b)"
  by (auto simp add: breaker_enter_def can_execute_def split: if_splits option.splits)

lemma breaker_enter_denied_iff:
  "(\<exists>r. fst (breaker_enter b now now_msg) = Inl (CircuitBreakerOpen r)) \<longleftrightarrow>
   state b = OPEN \<and> (\<exists>t. last_failure_time b = Some t \<and> now - t < timeout_seconds b)"
  by (auto simp add: breaker_enter_def can_execute_def split: if_splits option.splits)

text \<open>
  Claim C10. Whenever entering the guard raises \<open>CircuitBreakerOpen\<close>, the breaker after
  the call is the breaker before it, field for field (state, \<open>failure_count\<close>,
  \<open>success_count\<close>, \<open>last_failure_time\<close> and the configuration), and the guarded call as a
  whole returns that exception without running the operation and without recording a
  success or a failure: the state outside the breaker is unchanged as well.
\<close>

theorem denied_call_leaves_breaker_unchanged:
  assumes "fst (breaker_enter b (at_enter clk) (at_deny clk)) = Inl (CircuitBreakerOpen r)"
  shows "snd (breaker_enter b (at_enter clk) (at_deny clk)) = b \<and>
         with_circuit_breaker clk operation (b, s) = (Inl (CircuitBreakerOpen r), b, s)"
  using breaker_enter_denied [OF assms] by (simp add: with_circuit_breaker_def)

theorem denied_call_leaves_breaker_unchanged_witness:
  "with_circuit_breaker
     \<lparr>at_get = 0, at_enter = 11.5, at_deny = 11.6, at_set = 0, at_exit = 0\<rparr>
     (\<lambda>n :: nat. (Inr True, Suc n))
     (record_failures (CircuitBreaker_init 2 2 1) [10, 11], 0) =
   (Inl (CircuitBreakerOpen (2 / 5)), record_failures (CircuitBreaker_init 2 2 1) [10, 11], 0)"
proof -
  let ?b = "record_failures (CircuitBreaker_init 2 2 1) [10, 11]"
  let ?clk = "\<lparr>at_get = 0, at_enter = 11.5, at_deny = 11.6, at_set = 0, at_exit = 0\<rparr>"
  have "fst (breaker_enter ?b (at_enter ?clk) (at_deny ?clk)) = Inl (CircuitBreakerOpen (2 / 5))"
    by (simp add: CircuitBreaker_init_def record_failure_def breaker_enter_def
        can_execute_def retry_after_def)
  from denied_call_leaves_breaker_unchanged [OF this]
  show ?thesis by (rule conjunct2)
qed

section \<open>Properties of the query cache\<close>

lemma foldl_min_in: "foldl (\<lambda>best y. if f y < f best then y else best) x xs \<in> set (x # xs)"
  by (induction xs arbitrary: x) auto

lemma foldl_min_le:
  "(f :: 'a \<Rightarrow> real) (foldl (\<lambda>best y. if f y < f best then y else best) x xs) \<le> f x \<and>
   (\<forall>y \<in> set xs. f (foldl (\<lambda>best y. if f y < f best then y else best) x xs) \<le> f y)"
proof (induction xs arbitrary: x)
  case Nil
  show ?case by simp
next
  case (Cons a xs)
  let ?x' = "if f a < f x then a else x"
  let ?r = "foldl (\<lambda>best y. if f y < f best then y else best) ?x' xs"
  have r: "f ?r \<le> f ?x'" and rest: "\<forall>y \<in> set xs. f ?r \<le> f y"
    using Cons [of ?x'] by blast+
  have "f ?x' \<le> f x" and "f ?x' \<le> f a" by auto
  with r have "f ?r \<le> f x" and "f ?r \<le> f a" by linarith+
  with rest show ?case by simp
qed

lemma min_by_None: "min_by f xs = None \<longleftrightarrow> xs = []"
  by (cases xs) simp_all

lemma min_by_Some:
  assumes "min_by f xs = Some x"
  shows "x \<in> set xs \<and> (\<forall>y \<in> set xs. f x \<le> f y)"
proof (cases xs)
  case Nil
  with assms show ?thesis by simp
next
  case (Cons a as)
  with assms have x: "x = foldl (\<lambda>best y. if f y < f best then y else best) a as" by simp
  show ?thesis
    using foldl_min_in [of f a as] foldl_min_le [of f a as] unfolding x Cons
    by (simp del: foldl_Cons)
qed

lemma length_update:
  "length (AList.update k v al) = (if k \<in> fst ` set al then length al else Suc (length al))"
  by (induction al) auto

lemma length_delete_distinct:
  "distinct (map fst al) \<Longrightarrow> (k, v) \<in> set al \<Longrightarrow> Suc (length (AList.delete k al)) = length al"
  by (induction al) (auto simp add: rev_image_eqI)

lemma set_delete_distinct:
  "distinct (map fst al) \<Longrightarrow> (k, v) \<in> set al \<Longrightarrow> set (AList.delete k al) = set al - {(k, v)}"
  by (induction al) (auto simp add: rev_image_eqI AList.delete_eq)

lemma oldest_key_Some:
  assumes "oldest_key c = Some k"
  shows "\<exists>e. (k, e) \<in> set (cache c) \<and> (\<forall>(k', e') \<in> set (cache c). timestamp e \<le> timestamp e')"
proof -
  from assms obtain x where x: "min_by (\<lambda>(k, e). timestamp e) (cache c) = Some x" and k: "k = fst x"
    by (auto simp add: oldest_key_def)
  from min_by_Some [OF x] k show ?thesis
    by (cases x) (auto split: prod.splits)
qed

lemma oldest_key_None: "oldest_key c = None \<longleftrightarrow> cache c = []"
  by (simp add: oldest_key_def min_by_None)

text \<open>
  Claim C3, as stated, fails at the boundary: an entry whose age equals \<open>ttl_seconds\<close>
  (inserted at 0, read at 300, TTL 300) is not younger than the TTL, yet \<open>get\<close> returns
  its value and keeps it in the cache. The source tests \<open>age > ttl_seconds\<close> for expiry.
\<close>

theorem get_at_ttl_counterexample:
  "map_of (cache fresh_boundary_cache) 1 = Some \<lparr>results = ''r'', timestamp = 0\<rparr> \<and>
   \<not> (300 - 0 < ttl_seconds fresh_boundary_cache) \<and>
   fst (QueryCache_get fresh_boundary_cache 300 1) = Some ''r'' \<and>
   map_of (cache (snd (QueryCache_get fresh_boundary_cache 300 1))) 1 =
     Some \<lparr>results = ''r'', timestamp = 0\<rparr>"
  by (simp add: fresh_boundary_cache_def QueryCache_get_def)

text \<open>
  Claim C3, amended. \<open>get\<close> returns the cached value exactly when the entry is present
  and \<open>now - insertion_time \<le> ttl_seconds\<close>, leaving the dictionary as it was; once more
  than \<open>ttl_seconds\<close> have elapsed since insertion (age \<open>> ttl\<close>) it reports a miss and
  the key is gone from the dictionary; on an absent key it reports a miss and changes
  nothing else. Every call increments exactly one counter: \<open>hits\<close> when a value is
  returned, \<open>misses\<close> otherwise.
\<close>

theorem get_returns_value_iff_fresh:
  "(\<forall>e. map_of (cache c) key = Some e \<longrightarrow>
      (now - timestamp e \<le> ttl_seconds c \<longrightarrow>
         fst (QueryCache_get c now key) = Some (results e) \<and>
         cache (snd (QueryCache_get c now key)) = cache c) \<and>
      (now - timestamp e > ttl_seconds c \<longrightarrow>
         fst (QueryCache_get c now key) = None \<and>
         map_of (cache (snd (QueryCache_get c now key))) key = None)) \<and>
   (map_of (cache c) key = None \<longrightarrow>
      fst (QueryCache_get c now key) = None \<and>
      cache (snd (QueryCache_get c now key)) = cache c) \<and>
   (fst (QueryCache_get c now key) \<noteq> None \<and>
      hits (snd (QueryCache_get c now key)) = hits c + 1 \<and>
      misses (snd (QueryCache_get c now key)) = misses c
    \<or>
    fst (QueryCache_get c now key) = None \<and>
      hits (snd (QueryCache_get c now key)) = hits c \<and>
      misses (snd (QueryCache_get c now key)) = misses c + 1)"
  by (auto simp add: QueryCache_get_def AList.delete_conv' split: option.splits)

theorem get_returns_value_iff_fresh_witness:
  "fst (QueryCache_get fresh_boundary_cache 300 1) = Some ''r'' \<and>
   fst (QueryCache_get fresh_boundary_cache 301 1) = None \<and>
   map_of (cache (snd (QueryCache_get fresh_boundary_cache 301 1))) 1 = None \<and>
   fst (QueryCache_get fresh_boundary_cache 300 2) = None"
proof -
  have m: "map_of (cache fresh_boundary_cache) 1 = Some \<lparr>results = ''r'', timestamp = 0\<rparr>"
    by (simp add: fresh_boundary_cache_def)
  have n: "map_of (cache fresh_boundary_cache) 2 = None"
    by (simp add: fresh_boundary_cache_def)
  have t: "ttl_seconds fresh_boundary_cache = 300"
    by (simp add: fresh_boundary_cache_def)
  show ?thesis
    using m n t get_returns_value_iff_fresh [of fresh_boundary_cache 1 300]
      get_returns_value_iff_fresh [of fresh_boundary_cache 1 301]
      get_returns_value_iff_fresh [of fresh_boundary_cache 2 300]
    by simp
qed

lemma set_below_capacity:
  "int (length (cache c)) < max_size c \<Longrightarrow>
   QueryCache_set c now key res =
     Inr (c\<lparr>cache := AList.update key \<lparr>results = res, timestamp = now\<rparr> (cache c)\<rparr>)"
  by (simp add: QueryCache_set_def)

lemma set_at_capacity:
  assumes wf: "cache_wf c" and pos: "1 \<le> max_size c" and full: "int (length (cache c)) = max_size c"
  shows "\<exists>k e. oldest_key c = Some k \<and> (k, e) \<in> set (cache c) \<and>
           (\<forall>(k', e') \<in> set (cache c). timestamp e \<le> timestamp e') \<and>
           set (AList.delete k (cache c)) = set (cache c) - {(k, e)} \<and>
           Suc (length (AList.delete k (cache c))) = length (cache c) \<and>
           QueryCache_set c now key res =
             Inr (c\<lparr>cache := AList.update key \<lparr>results = res, timestamp = now\<rparr>
                                 (AList.delete k (cache c))\<rparr>)"
proof -
  from pos full have "cache c \<noteq> []" by auto
  then obtain k where k: "oldest_key c = Some k"
    using oldest_key_None [of c] by (cases "oldest_key c") auto
  from oldest_key_Some [OF k] obtain e where
    e: "(k, e) \<in> set (cache c)" and
    least: "\<forall>(k', e') \<in> set (cache c). timestamp e \<le> timestamp e'"
    by blast
  from wf have d: "distinct (map fst (cache c))" by (simp add: cache_wf_def)
  have "QueryCache_set c now key res =
          Inr (c\<lparr>cache := AList.update key \<lparr>results = res, timestamp = now\<rparr>
                              (AList.delete k (cache c))\<rparr>)"
    using full k by (simp add: QueryCache_set_def)
  with k e least set_delete_distinct [OF d e] length_delete_distinct [OF d e]
  show ?thesis by blast
qed

lemma set_invariant:
  assumes wf: "cache_wf c" and pos: "1 \<le> max_size c" and le: "int (length (cache c)) \<le> max_size c"
  shows "\<exists>c'. QueryCache_set c now key res = Inr c' \<and> cache_wf c' \<and>
           int (length (cache c')) \<le> max_size c' \<and> max_size c' = max_size c \<and>
           map_of (cache c') key = Some \<lparr>results = res, timestamp = now\<rparr>"
proof (cases "int (length (cache c)) < max_size c")
  case True
  from wf have d: "distinct (map fst (cache c))" by (simp add: cache_wf_def)
  show ?thesis
    using True d
    by (simp add: set_below_capacity cache_wf_def distinct_update length_update update_conv')
next
  case False
  with le have full: "int (length (cache c)) = max_size c" by simp
  from set_at_capacity [OF wf pos full, of now key res] obtain k where
    s: "QueryCache_set c now key res =
          Inr (c\<lparr>cache := AList.update key \<lparr>results = res, timestamp = now\<rparr>
                              (AList.delete k (cache c))\<rparr>)" and
    l: "Suc (length (AList.delete k (cache c))) = length (cache c)"
    by blast
  from wf have d: "distinct (map fst (AList.delete k (cache c)))"
    by (simp add: cache_wf_def distinct_delete)
  have "length (AList.update key \<lparr>results = res, timestamp = now\<rparr> (AList.delete k (cache c)))
          \<le> length (cache c)"
    using l by (simp add: length_update)
  with s d full show ?thesis
    by (simp add: cache_wf_def distinct_update update_conv')
qed

lemma get_invariant:
  "cache_wf c \<Longrightarrow> int (length (cache c)) \<le> max_size c \<Longrightarrow>
   cache_wf (snd (QueryCache_get c now key)) \<and>
   int (length (cache (snd (QueryCache_get c now key)))) \<le> max_size (snd (QueryCache_get c now key))"
  using length_delete_le [of key "cache c"]
  by (auto simp add: QueryCache_get_def cache_wf_def distinct_delete split: option.splits)

lemma invalidate_invariant:
  "cache_wf c \<Longrightarrow> int (length (cache c)) \<le> max_size c \<Longrightarrow>
   cache_wf (QueryCache_invalidate c key) \<and>
   int (length (cache (QueryCache_invalidate c key))) \<le> max_size (QueryCache_invalidate c key) \<and>
   map_of (cache (QueryCache_invalidate c key)) key = None"
  using length_delete_le [of key "cache c"]
  by (auto simp add: QueryCache_invalidate_def cache_wf_def distinct_delete delete_conv')

text \<open>
  Claim C4, as stated, fails for a cache built with \<open>max_size = 0\<close>: the empty cache
  holds \<open>max_size\<close> entries, and \<open>set\<close> then calls \<open>min\<close> on an empty sequence and
  raises \<open>ValueError\<close>; nothing is evicted and nothing is inserted.
\<close>

theorem set_at_zero_capacity_counterexample:
  "cache_wf zero_capacity_cache \<and>
   int (length (cache zero_capacity_cache)) \<le> max_size zero_capacity_cache \<and>
   int (length (cache zero_capacity_cache)) = max_size zero_capacity_cache \<and>
   QueryCache_set zero_capacity_cache 5 1 ''r'' = Inl (ValueError ''min() arg is an empty sequence'')"
  by (simp add: zero_capacity_cache_def QueryCache_init_def cache_wf_def QueryCache_set_def
      oldest_key_def)

lemma foldl_min_first:
  "r = foldl (\<lambda>best y. if f y < f best then y else best) x xs \<Longrightarrow>
   \<exists>ys zs. x # xs = ys @ r # zs \<and> (\<forall>y \<in> set ys. (f :: 'a \<Rightarrow> real) r < f y)"
proof (induction xs arbitrary: x)
  case Nil
  then have "[x] = [] @ r # [] \<and> (\<forall>y \<in> set []. f r < f y)" by simp
  then show ?case by (intro exI [of _ "[]"])
next
  case (Cons a xs)
  show ?case
  proof (cases "f a < f x")
    case True
    with Cons.prems have r: "r = foldl (\<lambda>best y. if f y < f best then y else best) a xs"
      by simp
    from Cons.IH [OF r] obtain ys zs where
      s: "a # xs = ys @ r # zs" and b: "\<forall>y \<in> set ys. f r < f y"
      by blast
    have "f r \<le> f a" using foldl_min_le [of f a xs] unfolding r by blast
    with True have lt: "f r < f x" by linarith
    have "x # a # xs = (x # ys) @ r # zs" using s by simp
    moreover have "\<forall>y \<in> set (x # ys). f r < f y" using b lt by simp
    ultimately have "x # a # xs = (x # ys) @ r # zs \<and> (\<forall>y \<in> set (x # ys). f r < f y)"
      by (rule conjI)
    then show ?thesis by (intro exI [of _ "x # ys"] exI [of _ zs])
  next
    case False
    with Cons.prems have r: "r = foldl (\<lambda>best y. if f y < f best then y else best) x xs"
      by simp
    from Cons.IH [OF r] obtain ys zs where
      s: "x # xs = ys @ r # zs" and b: "\<forall>y \<in> set ys. f r < f y"
      by blast
    show ?thesis
    proof (cases ys)
      case Nil
      with s have "x # a # xs = [] @ r # (a # xs)" by simp
      moreover have "\<forall>y \<in> set []. f r < f y" by simp
      ultimately have "x # a # xs = [] @ r # (a # xs) \<and> (\<forall>y \<in> set []. f r < f y)"
        by (rule conjI)
      then show ?thesis by (intro exI [of _ "[]"] exI [of _ "a # xs"])
    next
      case (Cons y ys')
      with s have y: "y = x" and xs: "xs = ys' @ r # zs" by simp_all
      from b Cons y have lx: "f r < f x" by simp
      with False have la: "f r < f a" by linarith
      have "x # a # xs = (x # a # ys') @ r # zs" using xs by simp
      moreover have "\<forall>y \<in> set (x # a # ys'). f r < f y" using b Cons lx la by simp
      ultimately have "x # a # xs = (x # a # ys') @ r # zs \<and>
          (\<forall>y \<in> set (x # a # ys'). f r < f y)"
        by (rule conjI)
      then show ?thesis by (intro exI [of _ "x # a # ys'"] exI [of _ zs])
    qed
  qed
qed

lemma min_by_first:
  assumes "min_by f xs = Some x"
  shows "\<exists>ys zs. xs = ys @ x # zs \<and> (\<forall>y \<in> set ys. f x < f y)"
proof (cases xs)
  case Nil
  with assms show ?thesis by simp
next
  case (Cons a as)
  with assms have x: "x = foldl (\<lambda>best y. if f y < f best then y else best) a as" by simp
  show ?thesis using foldl_min_first [OF x] unfolding Cons .
qed

lemma oldest_key_first:
  assumes "oldest_key c = Some k"
  shows "\<exists>e pre post. cache c = pre @ (k, e) # post \<and>
           (\<forall>(k', e') \<in> set pre. timestamp e < timestamp e')"
proof -
  from assms obtain x where x: "min_by (\<lambda>(k, e). timestamp e) (cache c) = Some x" and k: "k = fst x"
    by (auto simp add: oldest_key_def)
  from min_by_first [OF x] obtain ys zs where
    "cache c = ys @ x # zs" "\<forall>y \<in> set ys. (\<lambda>(k, e). timestamp e) x < (\<lambda>(k, e). timestamp e) y"
    by blast
  with k show ?thesis
    by (cases x) (auto split: prod.splits)
qed

lemma set_at_capacity_first:
  assumes wf: "cache_wf c" and pos: "1 \<le> max_size c" and full: "int (length (cache c)) = max_size c"
  shows "\<exists>k e pre post. oldest_key c = Some k \<and> cache c = pre @ (k, e) # post \<and>
           (\<forall>(k', e') \<in> set pre. timestamp e < timestamp e') \<and>
           (\<forall>(k', e') \<in> set post. timestamp e \<le> timestamp e') \<and>
           AList.delete k (cache c) = pre @ post \<and>
           QueryCache_set c now key res =
             Inr (c\<lparr>cache := AList.update key \<lparr>results = res, timestamp = now\<rparr> (pre @ post)\<rparr>)"
proof -
  from pos full have "cache c \<noteq> []" by auto
  then obtain k where k: "oldest_key c = Some k"
    using oldest_key_None [of c] by (cases "oldest_key c") auto
  from oldest_key_first [OF k] obtain e pre post where
    split: "cache c = pre @ (k, e) # post" and
    before: "\<forall>(k', e') \<in> set pre. timestamp e < timestamp e'"
    by blast
  from oldest_key_Some [OF k] obtain e0 where
    e0: "(k, e0) \<in> set (cache c)" and
    least: "\<forall>(k', e') \<in> set (cache c). timestamp e0 \<le> timestamp e'"
    by blast
  from wf have d: "distinct (map fst (cache c))" by (simp add: cache_wf_def)
  have "(k, e) \<in> set (cache c)" using split by simp
  then have "map_of (cache c) k = Some e" using d by (rule_tac map_of_is_SomeI)
  moreover have "map_of (cache c) k = Some e0" using d e0 by (rule_tac map_of_is_SomeI)
  ultimately have "e0 = e" by simp
  with least split have after: "\<forall>(k', e') \<in> set post. timestamp e \<le> timestamp e'"
    by auto
  have notin: "k \<notin> fst ` set pre" "k \<notin> fst ` set post"
    using d unfolding split by auto
  have dp: "AList.delete k pre = pre" and dq: "AList.delete k post = post"
    using notin by simp_all
  have "AList.delete k (pre @ (k, e) # post) = AList.delete k pre @ AList.delete k post"
    by (simp add: AList.delete_eq)
  then have del: "AList.delete k (cache c) = pre @ post"
    unfolding split dp dq .
  have "QueryCache_set c now key res =
          Inr (c\<lparr>cache := AList.update key \<lparr>results = res, timestamp = now\<rparr> (pre @ post)\<rparr>)"
    using full k del by (simp add: QueryCache_set_def)
  with k split before after del show ?thesis by blast
qed

text \<open>
  Claim C4, amended to \<open>max_size \<ge> 1\<close>. For every cache with distinct keys (as a
  dictionary has), \<open>max_size \<ge> 1\<close> and at most \<open>max_size\<close> entries: when it holds exactly
  \<open>max_size\<close> entries, \<open>set\<close> removes exactly one entry and then stores the new entry.
  The entry removed is the one with the smallest timestamp: every entry before it in the
  dictionary has a strictly larger timestamp and every entry after it a timestamp at
  least as large, which determines it also when timestamps are equal; the dictionary
  that the new entry is stored into is the old one without that entry. After \<open>set\<close>,
  \<open>get\<close> and \<open>invalidate\<close> the keys are still distinct and the number of entries is at
  most \<open>max_size\<close>.
\<close>

theorem set_evicts_oldest_at_capacity:
  assumes "cache_wf c" and "1 \<le> max_size c" and "int (length (cache c)) \<le> max_size c"
  shows
    "(int (length (cache c)) = max_size c \<longrightarrow>
        (\<exists>k e pre post. oldest_key c = Some k \<and> cache c = pre @ (k, e) # post \<and>
           (\<forall>(k', e') \<in> set pre. timestamp e < timestamp e') \<and>
           (\<forall>(k', e') \<in> set post. timestamp e \<le> timestamp e') \<and>
           (k, e) \<in> set (cache c) \<and>
           (\<forall>(k', e') \<in> set (cache c). timestamp e \<le> timestamp e') \<and>
           AList.delete k (cache c) = pre @ post \<and>
           set (AList.delete k (cache c)) = set (cache c) - {(k, e)} \<and>
           Suc (length (AList.delete k (cache c))) = length (cache c) \<and>
           QueryCache_set c now key res =
             Inr (c\<lparr>cache := AList.update key \<lparr>results = res, timestamp = now\<rparr>
                                 (AList.delete k (cache c))\<rparr>))) \<and>
     (\<exists>c'. QueryCache_set c now key res = Inr c' \<and> cache_wf c' \<and>
        int (length (cache c')) \<le> max_size c' \<and> max_size c' = max_size c \<and>
        map_of (cache c') key = Some \<lparr>results = res, timestamp = now\<rparr>) \<and>
     (cache_wf (snd (QueryCache_get c now key)) \<and>
      int (length (cache (snd (QueryCache_get c now key))))
        \<le> max_size (snd (QueryCache_get c now key))) \<and>
     (cache_wf (QueryCache_invalidate c key) \<and>
      int (length (cache (QueryCache_invalidate c key))) \<le> max_size (QueryCache_invalidate c key))"
proof -
  have cap: "\<exists>k e pre post. oldest_key c = Some k \<and> cache c = pre @ (k, e) # post \<and>
           (\<forall>(k', e') \<in> set pre. timestamp e < timestamp e') \<and>
           (\<forall>(k', e') \<in> set post. timestamp e \<le> timestamp e') \<and>
           (k, e) \<in> set (cache c) \<and>
           (\<forall>(k', e') \<in> set (cache c). timestamp e \<le> timestamp e') \<and>
           AList.delete k (cache c) = pre @ post \<and>
           set (AList.delete k (cache c)) = set (cache c) - {(k, e)} \<and>
           Suc (length (AList.delete k (cache c))) = length (cache c) \<and>
           QueryCache_set c now key res =
             Inr (c\<lparr>cache := AList.update key \<lparr>results = res, timestamp = now\<rparr>
                                 (AList.delete k (cache c))\<rparr>)"
    if full: "int (length (cache c)) = max_size c"
  proof -
    from set_at_capacity_first [OF assms(1,2) full, of now key res] obtain k e pre post where
      k: "oldest_key c = Some k" and split: "cache c = pre @ (k, e) # post" and
      before: "\<forall>(k', e') \<in> set pre. timestamp e < timestamp e'" and
      after: "\<forall>(k', e') \<in> set post. timestamp e \<le> timestamp e'" and
      del: "AList.delete k (cache c) = pre @ post" and
      st: "QueryCache_set c now key res =
             Inr (c\<lparr>cache := AList.update key \<lparr>results = res, timestamp = now\<rparr> (pre @ post)\<rparr>)"
      by blast
    from assms(1) have d: "distinct (map fst (cache c))" by (simp add: cache_wf_def)
    have mem: "(k, e) \<in> set (cache c)" using split by simp
    have least: "\<forall>(k', e') \<in> set (cache c). timestamp e \<le> timestamp e'"
      using before after unfolding split by fastforce
    have st': "QueryCache_set c now key res =
             Inr (c\<lparr>cache := AList.update key \<lparr>results = res, timestamp = now\<rparr>
                                 (AList.delete k (cache c))\<rparr>)"
      using st del by simp
    from k split before after mem least del set_delete_distinct [OF d mem]
      length_delete_distinct [OF d mem] st'
    show ?thesis by blast
  qed
  from cap set_invariant [OF assms, of now key res]
    get_invariant [OF assms(1,3), of now key] invalidate_invariant [OF assms(1,3), of key]
  show ?thesis by blast
qed

theorem set_evicts_oldest_at_capacity_witness:
  "cache_wf full_cache \<and> 1 \<le> max_size full_cache \<and>
   int (length (cache full_cache)) = max_size full_cache \<and>
   oldest_key full_cache = Some 2 \<and>
   QueryCache_set full_cache 9 4 ''d'' =
     Inr (full_cache\<lparr>cache := [(1, \<lparr>results = ''a'', timestamp = 5\<rparr>),
                               (3, \<lparr>results = ''c'', timestamp = 2\<rparr>),
                               (4, \<lparr>results = ''d'', timestamp = 9\<rparr>)]\<rparr>)"
proof -
  have wf: "cache_wf full_cache" by (simp add: full_cache_def cache_wf_def)
  have pos: "1 \<le> max_size full_cache" by (simp add: full_cache_def)
  have le: "int (length (cache full_cache)) \<le> max_size full_cache" by (simp add: full_cache_def)
  have full: "int (length (cache full_cache)) = max_size full_cache" by (simp add: full_cache_def)
  have k: "oldest_key full_cache = Some 2" by (simp add: full_cache_def oldest_key_def)
  have d: "AList.delete 2 (cache full_cache) =
             [(1, \<lparr>results = ''a'', timestamp = 5\<rparr>), (3, \<lparr>results = ''c'', timestamp = 2\<rparr>)]"
    by (simp add: full_cache_def AList.delete_eq)
  from set_evicts_oldest_at_capacity [OF wf pos le, of 9 4 "''d''"] full k d
  show ?thesis using wf pos by auto
qed

section \<open>Properties of the retrying pool\<close>

lemma run_attempt_success:
  "permit env i \<Longrightarrow> operation w = (Inr v, w') \<Longrightarrow>
   run_attempt env operation i (p, w) =
     (Finished (Inr v),
      p\<lparr>metrics := metrics_record_success (metrics p) (stamp env i) (latency_ms env i),
        healthy := True, trace := trace p @ [Acquire, Invoke, Release]\<rparr>, w')"
  by (simp add: run_attempt_def log_event_def)

lemma run_attempt_permanent:
  "permit env i \<Longrightarrow> operation w = (Inl e, w') \<Longrightarrow> \<not> is_transient e \<Longrightarrow>
   run_attempt env operation i (p, w) =
     (Finished (Inl e),
      p\<lparr>metrics := metrics_record_failure (metrics p) (stamp env i) (latency_ms env i),
        trace := trace p @ [Acquire, Invoke, Release]\<rparr>, w')"
  by (simp add: run_attempt_def log_event_def)

lemma run_attempt_transient:
  "attempt_outcome env operation i w = (Inl e, w') \<Longrightarrow> is_transient e \<Longrightarrow>
   run_attempt env operation i (p, w) =
     (if int i < max_retries p then
        (if backoff_delay p i < 0
         then (Finished (Inl (ValueError ''sleep length must be non-negative'')),
               p\<lparr>metrics := metrics_record_failure (metrics p) (stamp env i) (latency_ms env i),
                 trace := trace p @ attempt_block env i\<rparr>, w')
         else (Retry e,
               p\<lparr>metrics := metrics_record_failure (metrics p) (stamp env i) (latency_ms env i),
                 trace := trace p @ attempt_block env i @ [Sleep (backoff_delay p i)]\<rparr>, w'))
      else (Finished (Inl e),
            p\<lparr>metrics := metrics_record_failure (metrics p) (stamp env i) (latency_ms env i),
              healthy := False, trace := trace p @ attempt_block env i\<rparr>, w'))"
  by (auto simp add: run_attempt_def log_event_def attempt_outcome_def attempt_block_def
      handle_transient_def backoff_delay_def Let_def split: if_splits)

lemma backoff_delay_cong:
  "retry_base_delay p' = retry_base_delay p \<Longrightarrow> retry_max_delay p' = retry_max_delay p \<Longrightarrow>
   backoff_delay p' = backoff_delay p"
  by (simp add: backoff_delay_def fun_eq_iff)

lemma backoff_delay_nonneg:
  "0 \<le> retry_base_delay p \<Longrightarrow> 0 \<le> retry_max_delay p \<Longrightarrow> 0 \<le> backoff_delay p i"
  by (simp add: backoff_delay_def)

lemma attempt_outcome_permit:
  "attempt_outcome env operation i w = (r, w') \<Longrightarrow> (\<forall>e. r = Inl e \<longrightarrow> \<not> is_transient e) \<Longrightarrow>
   permit env i \<and> operation w = (r, w')"
  by (auto simp add: attempt_outcome_def split: if_splits)

lemma retry_trace_block [simp]:
  "retry_trace d i (attempt_block env i)"
  "retry_trace d i (attempt_block env i @ Sleep x # rest) = (x = d i \<and> retry_trace d (Suc i) rest)"
  by (simp_all add: attempt_block_def)

lemma invocations_simps [simp]:
  "invocations [] = 0"
  "invocations (xs @ ys) = invocations xs + invocations ys"
  "invocations (Sleep x # evs) = invocations evs"
  "invocations [Acquire, Invoke, Release] = 1"
  by (simp_all add: invocations_def)

lemma invocations_block: "invocations (attempt_block env i) \<le> 1"
  by (simp add: attempt_block_def invocations_def)

lemma sleeps_append [simp]: "sleeps (xs @ ys) = sleeps xs @ sleeps ys"
  by (induction xs rule: sleeps.induct) simp_all

lemma sleeps_block [simp]: "sleeps (attempt_block env i) = []"
  by (simp add: attempt_block_def)

lemma retry_loop_trace:
  "bound = max_retries p + 1 \<Longrightarrow> int i < bound \<Longrightarrow>
   \<exists>new. trace (fst (snd (retry_loop env operation bound i lastx (p, w)))) = trace p @ new \<and>
         retry_trace (backoff_delay p) i new \<and> invocations new \<le> nat bound - i"
proof (induction "nat bound - i" arbitrary: i p w lastx)
  case 0
  then show ?case by simp
next
  case (Suc n)
  obtain r w' where out: "attempt_outcome env operation i w = (r, w')"
    by (cases "attempt_outcome env operation i w")
  let ?pf = "p\<lparr>metrics := metrics_record_failure (metrics p) (stamp env i) (latency_ms env i)\<rparr>"
  have one: "1 \<le> nat bound - i" using Suc.hyps(2) by simp
  show ?case
  proof (cases r)
    case (Inr v)
    with out have "permit env i" and "operation w = (Inr v, w')"
      using attempt_outcome_permit [OF out] by simp_all
    then show ?thesis
      using Suc.prems one
      by (subst retry_loop.simps) (simp add: run_attempt_success)
  next
    case (Inl e)
    show ?thesis
    proof (cases "is_transient e")
      case False
      with out Inl have "permit env i" and "operation w = (Inl e, w')"
        using attempt_outcome_permit [OF out] by simp_all
      then show ?thesis
        using Suc.prems one False
        by (subst retry_loop.simps) (simp add: run_attempt_permanent)
    next
      case True
      note ra = run_attempt_transient [OF out [unfolded Inl] True, of p]
      show ?thesis
      proof (cases "int i < max_retries p \<and> \<not> backoff_delay p i < 0")
        case False
        then show ?thesis
          using Suc.prems one invocations_block [of env i]
          by (subst retry_loop.simps) (auto simp add: ra)
      next
        case retry: True
        let ?p1 = "p\<lparr>metrics := metrics_record_failure (metrics p) (stamp env i) (latency_ms env i),
                      trace := trace p @ attempt_block env i @ [Sleep (backoff_delay p i)]\<rparr>"
        have step: "retry_loop env operation bound i lastx (p, w) =
                      retry_loop env operation bound (Suc i) (Some e) (?p1, w')"
          using Suc.prems retry by (subst retry_loop.simps) (simp add: ra)
        have n: "n = nat bound - Suc i" using Suc.hyps(2) by simp
        have b: "bound = max_retries ?p1 + 1" using Suc.prems by simp
        have lt: "int (Suc i) < bound" using Suc.prems retry by simp
        from Suc.hyps(1) [OF n b lt, of "Some e" w'] obtain new where
          new: "trace (fst (snd (retry_loop env operation bound (Suc i) (Some e) (?p1, w')))) =
                  trace ?p1 @ new"
            "retry_trace (backoff_delay ?p1) (Suc i) new"
            "invocations new \<le> nat bound - Suc i"
          by blast
        have d: "backoff_delay ?p1 = backoff_delay p"
          by (rule backoff_delay_cong) simp_all
        let ?new = "attempt_block env i @ Sleep (backoff_delay p i) # new"
        have "trace (fst (snd (retry_loop env operation bound i lastx (p, w)))) = trace p @ ?new"
          using new(1) step by simp
        moreover have "retry_trace (backoff_delay p) i ?new"
          using new(2) d by simp
        moreover have "invocations ?new \<le> nat bound - i"
          using new(3) invocations_block [of env i] lt
          by (simp add: invocations_def)
        ultimately show ?thesis by blast
      qed
    qed
  qed
qed


lemma transient_failures_length:
  "transient_failures env operation i k w = Some (es, w1) \<Longrightarrow> length es = k"
  by (induction k arbitrary: i w es)
     (auto split: prod.splits sum.splits if_splits option.splits)

lemma transient_failures_Suc:
  "transient_failures env operation i (Suc k) w = Some (es, w1) \<Longrightarrow>
   \<exists>e w' es'. attempt_outcome env operation i w = (Inl e, w') \<and> is_transient e \<and>
     transient_failures env operation (Suc i) k w' = Some (es', w1) \<and> es = e # es'"
  by (auto split: prod.splits sum.splits if_splits option.splits)

lemma transient_failures_snoc:
  "transient_failures env operation i (Suc k) w = Some (es, w2) \<Longrightarrow>
   \<exists>es0 w1 e. transient_failures env operation i k w = Some (es0, w1) \<and>
     attempt_outcome env operation (i + k) w1 = (Inl e, w2) \<and> is_transient e \<and> es = es0 @ [e]"
proof (induction k arbitrary: i w es)
  case 0
  then show ?case by (auto split: prod.splits sum.splits if_splits)
next
  case (Suc k)
  from transient_failures_Suc [OF Suc.prems] obtain e w' es' where
    a: "attempt_outcome env operation i w = (Inl e, w')" "is_transient e"
       "transient_failures env operation (Suc i) (Suc k) w' = Some (es', w2)" "es = e # es'"
    by blast
  from Suc.IH [OF a(3)] obtain es0 w1 e' where
    b: "transient_failures env operation (Suc i) k w' = Some (es0, w1)"
       "attempt_outcome env operation (Suc i + k) w1 = (Inl e', w2)" "is_transient e'"
       "es' = es0 @ [e']"
    by blast
  have "transient_failures env operation i (Suc k) w = Some (e # es0, w1)"
    using a(1,2) b(1) by simp
  with a(4) b(2,3,4) show ?case by simp
qed

lemma failed_attempts_config:
  "max_retries (failed_attempts env p i k) = max_retries p \<and>
   retry_base_delay (failed_attempts env p i k) = retry_base_delay p \<and>
   retry_max_delay (failed_attempts env p i k) = retry_max_delay p \<and>
   healthy (failed_attempts env p i k) = healthy p \<and>
   available (failed_attempts env p i k) = available p"
  by (induction k arbitrary: p i) simp_all

lemma failed_attempts_backoff:
  "backoff_delay (failed_attempts env p i k) = backoff_delay p"
  by (rule backoff_delay_cong) (simp_all add: failed_attempts_config)

lemma failed_attempts_metrics:
  "failed_requests (metrics (failed_attempts env p i k)) = failed_requests (metrics p) + int k \<and>
   total_requests (metrics (failed_attempts env p i k)) = total_requests (metrics p) + int k \<and>
   successful_requests (metrics (failed_attempts env p i k)) = successful_requests (metrics p)"
  by (induction k arbitrary: p i) (simp_all add: metrics_record_failure_def)

lemma failed_attempts_trace:
  "\<exists>new. trace (failed_attempts env p i k) = trace p @ new \<and>
         sleeps new = map (backoff_delay p) [i..<i + k] \<and> invocations new \<le> k"
proof (induction k arbitrary: p i)
  case 0
  show ?case by simp
next
  case (Suc k)
  let ?p1 = "p\<lparr>metrics := metrics_record_failure (metrics p) (stamp env i) (latency_ms env i),
                trace := trace p @ attempt_block env i @ [Sleep (backoff_delay p i)]\<rparr>"
  from Suc [of ?p1 "Suc i"] obtain new where
    new: "trace (failed_attempts env ?p1 (Suc i) k) = trace ?p1 @ new"
      "sleeps new = map (backoff_delay ?p1) [Suc i..<Suc i + k]" "invocations new \<le> k"
    by blast
  have d: "backoff_delay ?p1 = backoff_delay p"
    by (rule backoff_delay_cong) simp_all
  let ?new = "attempt_block env i @ Sleep (backoff_delay p i) # new"
  have "trace (failed_attempts env p i (Suc k)) = trace p @ ?new"
    using new(1) by simp
  moreover have "sleeps ?new = map (backoff_delay p) [i..<i + Suc k]"
  proof -
    have u: "[i..<i + Suc k] = i # [Suc i..<Suc i + k]"
      by (simp add: upt_conv_Cons del: upt_Suc)
    have "sleeps ?new = backoff_delay p i # sleeps new" by simp
    also have "\<dots> = backoff_delay p i # map (backoff_delay p) [Suc i..<Suc i + k]"
      using new(2) d by (simp only:)
    finally show ?thesis unfolding u by (simp only: list.map)
  qed
  moreover have "invocations ?new \<le> Suc k"
    using new(3) invocations_block [of env i] by simp
  ultimately show ?case by blast
qed

lemma retry_loop_after_failures:
  "transient_failures env operation i k w = Some (es, w1) \<Longrightarrow>
   int (i + k) \<le> max_retries p \<Longrightarrow> int i < bound \<Longrightarrow>
   \<forall>j<k. 0 \<le> backoff_delay p (i + j) \<Longrightarrow> int (i + k) < bound \<Longrightarrow>
   retry_loop env operation bound i lastx (p, w) =
     retry_loop env operation bound (i + k) (if k = 0 then lastx else Some (last es))
       (failed_attempts env p i k, w1)"
proof (induction k arbitrary: i p w lastx es)
  case 0
  then show ?case by simp
next
  case (Suc k)
  from transient_failures_Suc [OF Suc.prems(1)] obtain e w' es' where
    a: "attempt_outcome env operation i w = (Inl e, w')" "is_transient e"
       "transient_failures env operation (Suc i) k w' = Some (es', w1)" "es = e # es'"
    by blast
  let ?p1 = "p\<lparr>metrics := metrics_record_failure (metrics p) (stamp env i) (latency_ms env i),
                trace := trace p @ attempt_block env i @ [Sleep (backoff_delay p i)]\<rparr>"
  have lt: "int i < max_retries p" using Suc.prems(2) by simp
  have d0: "0 \<le> backoff_delay p i" using Suc.prems(4) by force
  have step: "retry_loop env operation bound i lastx (p, w) =
                retry_loop env operation bound (Suc i) (Some e) (?p1, w')"
    using Suc.prems(3) lt d0
    by (subst retry_loop.simps) (simp add: run_attempt_transient [OF a(1,2)])
  have d: "backoff_delay ?p1 = backoff_delay p"
    by (rule backoff_delay_cong) simp_all
  have pre: "int (Suc i + k) \<le> max_retries ?p1" "int (Suc i) < bound"
    "\<forall>j<k. 0 \<le> backoff_delay ?p1 (Suc i + j)" "int (Suc i + k) < bound"
    using Suc.prems d by auto
  have len: "length es' = k" using transient_failures_length [OF a(3)] .
  have l: "(if k = 0 then Some e else Some (last es')) = Some (last es)"
    using a(4) len by auto
  show ?case
    using Suc.IH [OF a(3) pre, of "Some e"] step l by simp
qed

lemma retry_loop_final_transient:
  "attempt_outcome env operation n w = (Inl e, w') \<Longrightarrow> is_transient e \<Longrightarrow>
   int n = max_retries p \<Longrightarrow>
   retry_loop env operation (max_retries p + 1) n lastx (p, w) =
     (Inl e,
      p\<lparr>metrics := metrics_record_failure (metrics p) (stamp env n) (latency_ms env n),
        healthy := False, trace := trace p @ attempt_block env n\<rparr>, w')"
  by (subst retry_loop.simps) (simp add: run_attempt_transient)

lemma retry_loop_permanent:
  "int i < bound \<Longrightarrow> permit env i \<Longrightarrow> operation w = (Inl e, w') \<Longrightarrow> \<not> is_transient e \<Longrightarrow>
   retry_loop env operation bound i lastx (p, w) =
     (Inl e,
      p\<lparr>metrics := metrics_record_failure (metrics p) (stamp env i) (latency_ms env i),
        trace := trace p @ [Acquire, Invoke, Release]\<rparr>, w')"
  by (subst retry_loop.simps) (simp add: run_attempt_permanent)

lemma retry_loop_success:
  "int i < bound \<Longrightarrow> permit env i \<Longrightarrow> operation w = (Inr v, w') \<Longrightarrow>
   retry_loop env operation bound i lastx (p, w) =
     (Inr v,
      p\<lparr>metrics := metrics_record_success (metrics p) (stamp env i) (latency_ms env i),
        healthy := True, trace := trace p @ [Acquire, Invoke, Release]\<rparr>, w')"
  by (subst retry_loop.simps) (simp add: run_attempt_success)

lemma run_attempt_retry_transient:
  "run_attempt env operation i pw = (Retry e, pw') \<Longrightarrow> is_transient e"
  by (cases pw)
     (auto simp add: run_attempt_def handle_transient_def Let_def
       split: if_splits prod.splits sum.splits)

lemma new_events_append: "trace p' = trace p @ new \<Longrightarrow> new_events p p' = new"
  by (simp add: new_events_def)

text \<open>
  Claim C7, for a retry budget \<open>max_retries \<ge> 0\<close>. The events of one call of
  \<open>execute_with_retry\<close> are a sequence of attempts in which every two consecutive
  attempts are separated by exactly one sleep of
  \<open>min (retry_base_delay * 2 ^ attempt) retry_max_delay\<close>, \<open>attempt\<close> being the 0-based
  number of the earlier one, and no sleep follows the last attempt; the operation is
  invoked at most \<open>max_retries + 1\<close> times. When the delays are non-negative and all
  \<open>max_retries + 1\<close> attempts end in a transient error, the call's result is the
  transient error of the last attempt, the sleeps are exactly those after the attempts
  \<open>0, ..., max_retries - 1\<close>, the pool is marked unhealthy and \<open>max_retries + 1\<close>
  failures have been recorded.
\<close>

theorem retry_budget_and_backoff:
  assumes "0 \<le> max_retries p"
  shows
    "trace (fst (snd (execute_with_retry env operation (p, w)))) =
       trace p @ new_events p (fst (snd (execute_with_retry env operation (p, w)))) \<and>
     retry_trace (backoff_delay p) 0
       (new_events p (fst (snd (execute_with_retry env operation (p, w))))) \<and>
     int (invocations (new_events p (fst (snd (execute_with_retry env operation (p, w))))))
       \<le> max_retries p + 1 \<and>
     (\<forall>i. backoff_delay p i = min (retry_base_delay p * 2 ^ i) (retry_max_delay p)) \<and>
     (0 \<le> retry_base_delay p \<longrightarrow> 0 \<le> retry_max_delay p \<longrightarrow>
      transient_failures env operation 0 (Suc (nat (max_retries p))) w = Some (es, w') \<longrightarrow>
        fst (execute_with_retry env operation (p, w)) = Inl (last es) \<and>
        snd (snd (execute_with_retry env operation (p, w))) = w' \<and>
        sleeps (new_events p (fst (snd (execute_with_retry env operation (p, w))))) =
          map (backoff_delay p) [0..<nat (max_retries p)] \<and>
        \<not> healthy (fst (snd (execute_with_retry env operation (p, w)))) \<and>
        failed_requests (metrics (fst (snd (execute_with_retry env operation (p, w))))) =
          failed_requests (metrics p) + max_retries p + 1)"
proof -
  let ?bound = "max_retries p + 1"
  let ?k = "nat (max_retries p)"
  let ?res = "execute_with_retry env operation (p, w)"
  have ex: "?res = retry_loop env operation ?bound 0 None (p, w)"
    by (simp add: execute_with_retry_def)
  have lt: "int 0 < ?bound" using assms by simp
  from retry_loop_trace [OF refl lt, of env operation None w] obtain new where
    new: "trace (fst (snd ?res)) = trace p @ new" "retry_trace (backoff_delay p) 0 new"
      "invocations new \<le> nat ?bound - 0"
    unfolding ex by blast
  have ne: "new_events p (fst (snd ?res)) = new"
    using new(1) by (rule new_events_append)
  have shape: "trace (fst (snd ?res)) = trace p @ new_events p (fst (snd ?res)) \<and>
               retry_trace (backoff_delay p) 0 (new_events p (fst (snd ?res))) \<and>
               int (invocations (new_events p (fst (snd ?res)))) \<le> max_retries p + 1"
    using new assms unfolding ne by simp
  have delay: "\<forall>i. backoff_delay p i = min (retry_base_delay p * 2 ^ i) (retry_max_delay p)"
    by (simp add: backoff_delay_def)
  have exhaust:
    "fst ?res = Inl (last es) \<and> snd (snd ?res) = w' \<and>
     sleeps (new_events p (fst (snd ?res))) = map (backoff_delay p) [0..<?k] \<and>
     \<not> healthy (fst (snd ?res)) \<and>
     failed_requests (metrics (fst (snd ?res))) = failed_requests (metrics p) + max_retries p + 1"
    if base: "0 \<le> retry_base_delay p" and mx: "0 \<le> retry_max_delay p"
      and tf: "transient_failures env operation 0 (Suc ?k) w = Some (es, w')"
  proof -
    from transient_failures_snoc [OF tf] obtain es0 w1 e where
      a: "transient_failures env operation 0 ?k w = Some (es0, w1)"
         "attempt_outcome env operation (0 + ?k) w1 = (Inl e, w')" "is_transient e"
         "es = es0 @ [e]"
      by blast
    let ?pk = "failed_attempts env p 0 ?k"
    have pre: "int (0 + ?k) \<le> max_retries p" "\<forall>j<?k. 0 \<le> backoff_delay p (0 + j)"
      "int (0 + ?k) < ?bound"
      using assms base mx by (simp_all add: backoff_delay_nonneg)
    have cfg: "max_retries ?pk = max_retries p"
      by (simp add: failed_attempts_config)
    have "?res = retry_loop env operation ?bound (0 + ?k)
                   (if ?k = 0 then None else Some (last es0)) (?pk, w1)"
      unfolding ex by (rule retry_loop_after_failures [OF a(1) pre(1) lt pre(2) pre(3)])
    also have "\<dots> = (Inl e,
        ?pk\<lparr>metrics := metrics_record_failure (metrics ?pk) (stamp env ?k) (latency_ms env ?k),
            healthy := False, trace := trace ?pk @ attempt_block env ?k\<rparr>, w')"
      using retry_loop_final_transient [of env operation ?k w1 e w' ?pk] a(2,3) assms cfg
      by simp
    finally have r: "?res = (Inl e,
        ?pk\<lparr>metrics := metrics_record_failure (metrics ?pk) (stamp env ?k) (latency_ms env ?k),
            healthy := False, trace := trace ?pk @ attempt_block env ?k\<rparr>, w')" .
    from failed_attempts_trace [of env p 0 ?k] obtain nk where
      nk: "trace ?pk = trace p @ nk" "sleeps nk = map (backoff_delay p) [0..<0 + ?k]"
      by blast
    have "trace (fst (snd ?res)) = trace p @ (nk @ attempt_block env ?k)"
      using r nk(1) by simp
    then have "new_events p (fst (snd ?res)) = nk @ attempt_block env ?k"
      by (rule new_events_append)
    then have sl: "sleeps (new_events p (fst (snd ?res))) = map (backoff_delay p) [0..<?k]"
      using nk(2) by simp
    have fr: "failed_requests (metrics (fst (snd ?res))) =
                failed_requests (metrics p) + max_retries p + 1"
      using r assms failed_attempts_metrics [of env p 0 ?k]
      by (simp add: metrics_record_failure_def)
    show ?thesis using r a(4) sl fr by simp
  qed
  from shape delay exhaust show ?thesis by blast
qed

lemma small_pool_simps:
  "max_retries small_pool = 2" "retry_base_delay small_pool = 1 / 10"
  "retry_max_delay small_pool = 10" "trace small_pool = []"
  "failed_requests (metrics small_pool) = 0" "healthy small_pool"
  by (simp_all add: small_pool_def ConnectionPool_init_def RequestMetrics_init_def)

theorem retry_budget_and_backoff_witness:
  "0 \<le> max_retries small_pool \<and>
   fst (execute_with_retry calm_env (flaky 5) (small_pool, 0)) = Inl (ConnectionError ''reset'') \<and>
   snd (snd (execute_with_retry calm_env (flaky 5) (small_pool, 0))) = 3 \<and>
   sleeps (new_events small_pool (fst (snd (execute_with_retry calm_env (flaky 5) (small_pool, 0)))))
     = [1 / 10, 1 / 5] \<and>
   int (invocations
     (new_events small_pool (fst (snd (execute_with_retry calm_env (flaky 5) (small_pool, 0))))))
     \<le> 3"
proof -
  have m: "0 \<le> max_retries small_pool" by (simp add: small_pool_simps)
  have tf: "transient_failures calm_env (flaky 5) 0 (Suc (nat (max_retries small_pool))) 0 =
              Some ([ConnectionError ''reset'', ConnectionError ''reset'', ConnectionError ''reset''], 3)"
    by (simp add: small_pool_simps numeral_2_eq_2 attempt_outcome_def calm_env_def flaky_def)
  have u: "[0..<nat (max_retries small_pool)] = [0, 1]"
    by (simp add: small_pool_simps numeral_2_eq_2)
  from retry_budget_and_backoff [OF m, of calm_env "flaky 5" 0 _ 3] tf u
  show ?thesis
    by (simp add: small_pool_simps backoff_delay_def)
qed

text \<open>
  Claim C8. Let the first \<open>k\<close> attempts (\<open>k\<close> may be 0) end in transient errors, each
  followed by its sleep, and let attempt \<open>k\<close>, still within the budget, obtain its permit
  and the operation raise an error \<open>e\<close> that is not transient. Then the call returns
  \<open>e\<close> at once: the pool is the pool after the \<open>k\<close> transient failures with exactly one
  more failure sample recorded and the events of that one attempt logged; there is no
  sleep after it and no further invocation. Moreover an attempt is followed by another
  one only when its error is transient.
\<close>

theorem permanent_error_not_retried:
  assumes "transient_failures env operation 0 k w = Some (es, w1)"
    and "int k \<le> max_retries p"
    and "\<forall>j<k. 0 \<le> backoff_delay p j"
    and "permit env k" and "operation w1 = (Inl e, w2)" and "\<not> is_transient e"
  shows
    "execute_with_retry env operation (p, w) =
       (Inl e,
        (failed_attempts env p 0 k)
          \<lparr>metrics := metrics_record_failure (metrics (failed_attempts env p 0 k))
                        (stamp env k) (latency_ms env k),
           trace := trace (failed_attempts env p 0 k) @ [Acquire, Invoke, Release]\<rparr>, w2) \<and>
     failed_requests (metrics (fst (snd (execute_with_retry env operation (p, w))))) =
       failed_requests (metrics p) + int k + 1 \<and>
     latency_history (metrics (fst (snd (execute_with_retry env operation (p, w))))) =
       deque_append (latency_history (metrics (failed_attempts env p 0 k)))
         (stamp env k, latency_ms env k, False) \<and>
     sleeps (new_events p (fst (snd (execute_with_retry env operation (p, w))))) =
       map (backoff_delay p) [0..<k] \<and>
     invocations (new_events p (fst (snd (execute_with_retry env operation (p, w))))) \<le> k + 1 \<and>
     (\<forall>j pw e' pw'. run_attempt env operation j pw = (Retry e', pw') \<longrightarrow> is_transient e')"
proof -
  let ?bound = "max_retries p + 1"
  let ?res = "execute_with_retry env operation (p, w)"
  let ?pk = "failed_attempts env p 0 k"
  have ex: "?res = retry_loop env operation ?bound 0 None (p, w)"
    by (simp add: execute_with_retry_def)
  have pre: "int (0 + k) \<le> max_retries p" "int 0 < ?bound" "\<forall>j<k. 0 \<le> backoff_delay p (0 + j)"
    "int (0 + k) < ?bound"
    using assms(2,3) by simp_all
  have "?res = retry_loop env operation ?bound (0 + k)
                 (if k = 0 then None else Some (last es)) (?pk, w1)"
    unfolding ex by (rule retry_loop_after_failures [OF assms(1) pre])
  also have "\<dots> = (Inl e,
      ?pk\<lparr>metrics := metrics_record_failure (metrics ?pk) (stamp env k) (latency_ms env k),
          trace := trace ?pk @ [Acquire, Invoke, Release]\<rparr>, w2)"
    using retry_loop_permanent [where i = "0 + k" and bound = ?bound and p = ?pk and w = w1
        and env = env and operation = operation and e = e and w' = w2] assms(4,5,6) pre(4)
    by simp
  finally have r: "?res = (Inl e,
      ?pk\<lparr>metrics := metrics_record_failure (metrics ?pk) (stamp env k) (latency_ms env k),
          trace := trace ?pk @ [Acquire, Invoke, Release]\<rparr>, w2)" .
  from failed_attempts_trace [of env p 0 k] obtain nk where
    nk: "trace ?pk = trace p @ nk" "sleeps nk = map (backoff_delay p) [0..<0 + k]"
      "invocations nk \<le> k"
    by blast
  have "trace (fst (snd ?res)) = trace p @ (nk @ [Acquire, Invoke, Release])"
    using r nk(1) by simp
  then have ne: "new_events p (fst (snd ?res)) = nk @ [Acquire, Invoke, Release]"
    by (rule new_events_append)
  have sl: "sleeps (new_events p (fst (snd ?res))) = map (backoff_delay p) [0..<k]"
    using nk(2) unfolding ne by simp
  have inv: "invocations (new_events p (fst (snd ?res))) \<le> k + 1"
    using nk(3) unfolding ne by simp
  have fr: "failed_requests (metrics (fst (snd ?res))) = failed_requests (metrics p) + int k + 1"
    using r failed_attempts_metrics [of env p 0 k] by (simp add: metrics_record_failure_def)
  have h: "latency_history (metrics (fst (snd ?res))) =
             deque_append (latency_history (metrics ?pk)) (stamp env k, latency_ms env k, False)"
    using r by (simp add: metrics_record_failure_def)
  have only: "\<forall>j pw e' pw'. run_attempt env operation j pw = (Retry e', pw') \<longrightarrow> is_transient e'"
    using run_attempt_retry_transient by blast
  from r fr h sl inv only show ?thesis by simp
qed

theorem permanent_error_not_retried_witness:
  "execute_with_retry calm_env (rejecting 0) (small_pool, 0) =
     (Inl (ValueError ''bad query''),
      small_pool\<lparr>metrics := metrics_record_failure (metrics small_pool) 0 5,
                 trace := [Acquire, Invoke, Release]\<rparr>, 1) \<and>
   fst (execute_with_retry calm_env (rejecting 1) (small_pool, 0)) = Inl (ValueError ''bad query'') \<and>
   snd (snd (execute_with_retry calm_env (rejecting 1) (small_pool, 0))) = 2 \<and>
   failed_requests (metrics (fst (snd (execute_with_retry calm_env (rejecting 1) (small_pool, 0)))))
     = 2 \<and>
   sleeps (new_events small_pool
     (fst (snd (execute_with_retry calm_env (rejecting 1) (small_pool, 0))))) = [1 / 10]"
proof -
  have t0: "transient_failures calm_env (rejecting 0) 0 0 0 = Some ([], 0)" by simp
  have t1: "transient_failures calm_env (rejecting 1) 0 1 0 = Some ([ConnectionError ''reset''], 1)"
    by (simp add: attempt_outcome_def calm_env_def rejecting_def)
  have k0: "int 0 \<le> max_retries small_pool" and k1: "int 1 \<le> max_retries small_pool"
    by (simp_all add: small_pool_simps)
  have d0: "\<forall>j<0::nat. 0 \<le> backoff_delay small_pool j" by simp
  have d1: "\<forall>j<1::nat. 0 \<le> backoff_delay small_pool j"
    by (simp add: backoff_delay_def small_pool_simps)
  have pm: "permit calm_env 0" "permit calm_env 1" by (simp_all add: calm_env_def)
  have o0: "rejecting 0 0 = (Inl (ValueError ''bad query''), 1)" by (simp add: rejecting_def)
  have o1: "rejecting 1 1 = (Inl (ValueError ''bad query''), 2)" by (simp add: rejecting_def)
  have nt: "\<not> is_transient (ValueError ''bad query'')" by simp
  note A = permanent_error_not_retried [OF t0 k0 d0 pm(1) o0 nt]
  note B = permanent_error_not_retried [OF t1 k1 d1 pm(2) o1 nt]
  have a1: "execute_with_retry calm_env (rejecting 0) (small_pool, 0) =
              (Inl (ValueError ''bad query''),
               small_pool\<lparr>metrics := metrics_record_failure (metrics small_pool) 0 5,
                          trace := [Acquire, Invoke, Release]\<rparr>, 1)"
    using A [THEN conjunct1] by (simp add: small_pool_simps calm_env_def)
  have b1: "fst (execute_with_retry calm_env (rejecting 1) (small_pool, 0)) =
              Inl (ValueError ''bad query'')"
    and b2: "snd (snd (execute_with_retry calm_env (rejecting 1) (small_pool, 0))) = 2"
    using B [THEN conjunct1] by simp_all
  have b3: "failed_requests
              (metrics (fst (snd (execute_with_retry calm_env (rejecting 1) (small_pool, 0))))) = 2"
    using B [THEN conjunct2, THEN conjunct1] by (simp add: small_pool_simps)
  have b4: "sleeps (new_events small_pool
              (fst (snd (execute_with_retry calm_env (rejecting 1) (small_pool, 0))))) = [1 / 10]"
    using B [THEN conjunct2, THEN conjunct2, THEN conjunct2, THEN conjunct1]
    by (simp add: small_pool_simps backoff_delay_def)
  from a1 b1 b2 b3 b4 show ?thesis by (simp only: simp_thms)
qed


section \<open>Properties of the bridge\<close>

lemma search_operation_keeps_cache:
  "search_operation clk backend key uc (Some c, w) = (r, co', w') \<Longrightarrow> \<exists>c'. co' = Some c'"
  by (auto simp add: search_operation_def split: prod.splits sum.splits if_splits)

lemma with_circuit_breaker_keeps_cache:
  assumes "with_circuit_breaker clk (search_operation clk backend key uc)
             (b, Some c, w) = (r, b', co', w')"
  shows "\<exists>c'. co' = Some c'"
proof (cases "fst (breaker_enter b (at_enter clk) (at_deny clk))")
  case (Inl e)
  with assms show ?thesis
    by (auto simp add: with_circuit_breaker_def split: prod.splits)
next
  case (Inr u)
  obtain r0 co0 w0 where op: "search_operation clk backend key uc (Some c, w) = (r0, co0, w0)"
    by (cases "search_operation clk backend key uc (Some c, w)")
  from search_operation_keeps_cache [OF op] obtain c' where "co0 = Some c'" by blast
  with assms Inr op show ?thesis
    by (auto simp add: with_circuit_breaker_def split: prod.splits)
qed

lemma search_guarded_error:
  "with_circuit_breaker clk (search_operation clk backend key uc)
     (bridge_breaker br, bridge_cache br, w) = (Inl e, b', co', w') \<Longrightarrow>
   search_guarded clk backend key uc (br, w) =
     (Inl e,
      br\<lparr>bridge_breaker := b',
         bridge_cache := map_option (\<lambda>c. QueryCache_invalidate c key) co'\<rparr>, w')"
  by (cases co') (simp_all add: search_guarded_def)

lemma invalidate_absent:
  "map_of (cache c) key = None \<Longrightarrow> QueryCache_invalidate c key = c"
  by (simp add: QueryCache_invalidate_def map_of_eq_None_iff)

lemma invalidate_removes: "map_of (cache (QueryCache_invalidate c key)) key = None"
  by (simp add: QueryCache_invalidate_def delete_conv')

text \<open>
  Claim C9. Take a read on a bridge that has a cache, in which the lookup was made and
  missed (\<open>use_cache\<close> true) or was skipped (\<open>use_cache\<close> false). If the guarded call
  ends with an exception \<open>e\<close>, then \<open>search\<close> ends with the same exception \<open>e\<close>, and
  the cache it leaves is the cache the guarded call left with the key invalidated: the
  key is not present in it, every other key is as before, and when the key was absent
  already the cache is unchanged. The breaker and the backend are as the guarded call
  left them.
\<close>

theorem search_invalidates_and_reraises:
  assumes "bridge_cache br = Some c"
    and "use_cache \<longrightarrow> fst (QueryCache_get c (at_get clk) key) = None"
    and "with_circuit_breaker clk (search_operation clk backend key use_cache)
           (bridge_breaker br,
            Some (if use_cache then snd (QueryCache_get c (at_get clk) key) else c), w) =
         (Inl e, b', co', w')"
  shows "\<exists>c2. co' = Some c2 \<and>
           search clk backend key use_cache (br, w) =
             (Inl e,
              br\<lparr>bridge_breaker := b', bridge_cache := Some (QueryCache_invalidate c2 key)\<rparr>,
              w') \<and>
           map_of (cache (QueryCache_invalidate c2 key)) = (map_of (cache c2))(key := None) \<and>
           map_of (cache (QueryCache_invalidate c2 key)) key = None \<and>
           (map_of (cache c2) key = None \<longrightarrow> QueryCache_invalidate c2 key = c2)"
proof -
  let ?c1 = "if use_cache then snd (QueryCache_get c (at_get clk) key) else c"
  from with_circuit_breaker_keeps_cache [OF assms(3)] obtain c2 where c2: "co' = Some c2"
    by blast
  let ?br1 = "br\<lparr>bridge_cache := Some ?c1\<rparr>"
  have g: "with_circuit_breaker clk (search_operation clk backend key use_cache)
             (bridge_breaker ?br1, bridge_cache ?br1, w) = (Inl e, b', co', w')"
    using assms(3) by simp
  have "search clk backend key use_cache (br, w) =
          search_guarded clk backend key use_cache (?br1, w)"
  proof (cases use_cache)
    case True
    with assms(2) obtain c1 where "QueryCache_get c (at_get clk) key = (None, c1)"
      by (cases "QueryCache_get c (at_get clk) key") simp
    with True assms(1) show ?thesis by (simp add: search_def)
  next
    case False
    have eq: "br\<lparr>bridge_cache := Some c\<rparr> = br" using assms(1) by (cases br) simp
    show ?thesis using False assms(1) by (simp add: search_def eq)
  qed
  also have "\<dots> = (Inl e,
      ?br1\<lparr>bridge_breaker := b',
           bridge_cache := map_option (\<lambda>c. QueryCache_invalidate c key) co'\<rparr>, w')"
    by (rule search_guarded_error [OF g])
  finally have "search clk backend key use_cache (br, w) =
      (Inl e, br\<lparr>bridge_breaker := b', bridge_cache := Some (QueryCache_invalidate c2 key)\<rparr>, w')"
    using c2 by simp
  moreover have "map_of (cache (QueryCache_invalidate c2 key)) = (map_of (cache c2))(key := None)"
    by (simp add: QueryCache_invalidate_def delete_conv')
  ultimately show ?thesis
    using c2 by (simp add: invalidate_removes invalidate_absent)
qed

theorem search_invalidates_and_reraises_witness:
  "map_of (cache (the (bridge_cache cached_bridge))) 7 = Some \<lparr>results = ''old'', timestamp = 50\<rparr> \<and>
   search example_clock (flaky 1) 7 False (cached_bridge, 0) =
     (Inl (ConnectionError ''reset''),
      cached_bridge
        \<lparr>bridge_breaker := record_failure (bridge_breaker cached_bridge) 101,
         bridge_cache :=
           Some ((QueryCache_init 1000 300)
                   \<lparr>cache := [(8, \<lparr>results = ''other'', timestamp = 60\<rparr>)]\<rparr>)\<rparr>, 1) \<and>
   fst (search example_clock (flaky 1) 7 True (example_bridge, 0)) = Inl (ConnectionError ''reset'') \<and>
   (\<exists>c'. bridge_cache (fst (snd (search example_clock (flaky 1) 7 True (example_bridge, 0)))) =
            Some c' \<and> map_of (cache c') 7 = None)"
proof -
  let ?c = "QueryCache_init 1000 300 :: (nat, string) query_cache"
  let ?k = "?c\<lparr>cache := [(7, \<lparr>results = ''old'', timestamp = 50\<rparr>),
                          (8, \<lparr>results = ''other'', timestamp = 60\<rparr>)]\<rparr>"
  have present: "map_of (cache (the (bridge_cache cached_bridge))) 7 =
                   Some \<lparr>results = ''old'', timestamp = 50\<rparr>"
    by (simp add: cached_bridge_def)
  have ck: "bridge_cache cached_bridge = Some ?k" by (simp add: cached_bridge_def)
  have uk: "False \<longrightarrow> fst (QueryCache_get ?k (at_get example_clock) 7) = None" by simp
  have wk: "with_circuit_breaker example_clock (search_operation example_clock (flaky 1) 7 False)
             (bridge_breaker cached_bridge,
              Some (if False then snd (QueryCache_get ?k (at_get example_clock) 7) else ?k), 0) =
           (Inl (ConnectionError ''reset''),
            record_failure (bridge_breaker cached_bridge) 101, Some ?k, 1)"
    by (simp add: with_circuit_breaker_def breaker_enter_def can_execute_def breaker_exit_def
        search_operation_def flaky_def cached_bridge_def example_bridge_def example_clock_def
        CircuitBreaker_init_def)
  have inv: "QueryCache_invalidate ?k 7 = ?c\<lparr>cache := [(8, \<lparr>results = ''other'', timestamp = 60\<rparr>)]\<rparr>"
    by (simp add: QueryCache_invalidate_def QueryCache_init_def AList.delete_eq)
  from search_invalidates_and_reraises [OF ck uk wk]
  have a: "search example_clock (flaky 1) 7 False (cached_bridge, 0) =
     (Inl (ConnectionError ''reset''),
      cached_bridge
        \<lparr>bridge_breaker := record_failure (bridge_breaker cached_bridge) 101,
         bridge_cache := Some (?c\<lparr>cache := [(8, \<lparr>results = ''other'', timestamp = 60\<rparr>)]\<rparr>)\<rparr>, 1)"
    unfolding inv [symmetric] by blast
  have c: "bridge_cache example_bridge = Some ?c" by (simp add: example_bridge_def)
  have u: "True \<longrightarrow> fst (QueryCache_get ?c (at_get example_clock) 7) = None"
    by (simp add: QueryCache_get_def QueryCache_init_def)
  have w: "with_circuit_breaker example_clock (search_operation example_clock (flaky 1) 7 True)
             (bridge_breaker example_bridge,
              Some (if True then snd (QueryCache_get ?c (at_get example_clock) 7) else ?c), 0) =
           (Inl (ConnectionError ''reset''),
            record_failure (bridge_breaker example_bridge) 101, Some (?c\<lparr>misses := 1\<rparr>), 1)"
    by (simp add: with_circuit_breaker_def breaker_enter_def can_execute_def breaker_exit_def
        search_operation_def flaky_def example_bridge_def example_clock_def CircuitBreaker_init_def
        QueryCache_get_def QueryCache_init_def)
  from search_invalidates_and_reraises [OF c u w]
  have b: "fst (search example_clock (flaky 1) 7 True (example_bridge, 0)) =
             Inl (ConnectionError ''reset'') \<and>
           (\<exists>c'. bridge_cache (fst (snd (search example_clock (flaky 1) 7 True (example_bridge, 0)))) =
              Some c' \<and> map_of (cache c') 7 = None)"
    by auto
  from present a b show ?thesis by (intro conjI) blast+
qed

lemma search_guarded_pool:
  "bridge_pool (fst (snd (search_guarded clk backend key uc (br, w)))) = bridge_pool br"
  by (auto simp add: search_guarded_def Let_def split: prod.splits sum.splits option.splits)

lemma search_leaves_pool_unchanged:
  "bridge_pool (fst (snd (search clk backend key uc (br, w)))) = bridge_pool br"
proof -
  have "bridge_pool (fst (snd (search_guarded clk backend key uc (br\<lparr>bridge_cache := x\<rparr>, w)))) =
          bridge_pool br" for x
    using search_guarded_pool [of clk backend key uc "br\<lparr>bridge_cache := x\<rparr>" w] by simp
  then show ?thesis
    by (auto simp add: search_def search_guarded_pool Let_def split: prod.splits option.splits)
qed

text \<open>
  Claim C1 does not hold of the code: \<open>search\<close> hands its operation to the breaker
  guard alone. On a cache miss with a backend whose first call raises \<open>ConnectionError\<close>
  and whose second call would succeed, \<open>search\<close> invokes the operation once and ends with
  the \<open>ConnectionError\<close>; the pool is untouched (no permit taken, no metrics, empty log).
  The sibling \<open>add\<close>, which goes through \<open>_with_retry\<close>, acquires a permit for each of
  two attempts on the same backend, sleeps 0.1 s between them and returns the result.
\<close>

theorem search_bypasses_retry:
  "fst (search example_clock (flaky 1) 7 True (example_bridge, 0)) = Inl (ConnectionError ''reset'') \<and>
   snd (snd (search example_clock (flaky 1) 7 True (example_bridge, 0))) = 1 \<and>
   bridge_pool (fst (snd (search example_clock (flaky 1) 7 True (example_bridge, 0)))) = small_pool \<and>
   trace small_pool = [] \<and>
   fst (add example_clock calm_env (flaky 1) (example_bridge, 0)) = Inr ''ok'' \<and>
   snd (snd (add example_clock calm_env (flaky 1) (example_bridge, 0))) = 2 \<and>
   trace (bridge_pool (fst (snd (add example_clock calm_env (flaky 1) (example_bridge, 0))))) =
     [Acquire, Invoke, Release, Sleep (1 / 10), Acquire, Invoke, Release]"
proof -
  have s: "search example_clock (flaky 1) 7 True (example_bridge, 0) =
             (Inl (ConnectionError ''reset''),
              example_bridge
                \<lparr>bridge_cache := Some ((QueryCache_init 1000 300)\<lparr>misses := 1\<rparr>),
                 bridge_breaker := record_failure (CircuitBreaker_init 5 3 30) 101\<rparr>, 1)"
    by (simp add: search_def search_guarded_def with_circuit_breaker_def breaker_enter_def
        can_execute_def breaker_exit_def search_operation_def flaky_def example_bridge_def
        example_clock_def CircuitBreaker_init_def QueryCache_get_def QueryCache_init_def
        QueryCache_invalidate_def)
  have r: "execute_with_retry calm_env (flaky 1) (small_pool, 0) =
             (Inr ''ok'',
              small_pool
                \<lparr>metrics := metrics_record_success
                              (metrics_record_failure (metrics small_pool) 0 5) 1 5,
                 healthy := True,
                 trace := [Acquire, Invoke, Release, Sleep (1 / 10), Acquire, Invoke, Release]\<rparr>,
              2)"
    by (simp add: execute_with_retry_def retry_loop.simps run_attempt_def handle_transient_def
        log_event_def backoff_delay_def calm_env_def flaky_def small_pool_def
        ConnectionPool_init_def Let_def)
  have a: "add example_clock calm_env (flaky 1) (example_bridge, 0) =
             (Inr ''ok'',
              example_bridge
                \<lparr>bridge_breaker := record_success (CircuitBreaker_init 5 3 30),
                 bridge_pool := small_pool
                   \<lparr>metrics := metrics_record_success
                                 (metrics_record_failure (metrics small_pool) 0 5) 1 5,
                    healthy := True,
                    trace := [Acquire, Invoke, Release, Sleep (1 / 10),
                              Acquire, Invoke, Release]\<rparr>\<rparr>, 2)"
    by (simp add: add_def add_impl_def with_retry_def r with_circuit_breaker_def
        breaker_enter_def can_execute_def breaker_exit_def example_bridge_def example_clock_def
        CircuitBreaker_init_def del: One_nat_def)
  have t: "trace small_pool = []" by (simp add: small_pool_def ConnectionPool_init_def)
  show ?thesis
    unfolding s a using t by (simp add: example_bridge_def)
qed

section \<open>Properties of the ODBC pool\<close>

lemma checked_out_append:
  "checked_out (ws @ [pc]) = checked_out ws + (if is_closed pc then 0 else 1)"
  by (simp add: checked_out_def)

lemma checked_out_nonneg: "0 \<le> checked_out ws"
  by (simp add: checked_out_def)

lemma length_filter_update:
  "i < length xs \<Longrightarrow> P (xs ! i) \<Longrightarrow> \<not> P y \<Longrightarrow>
   Suc (length (filter P (xs[i := y]))) = length (filter P xs)"
proof (induction xs arbitrary: i)
  case Nil
  then show ?case by simp
next
  case (Cons x xs)
  then show ?case by (cases i) auto
qed

lemma checked_out_close:
  "i < length ws \<Longrightarrow> \<not> is_closed (ws ! i) \<Longrightarrow>
   checked_out (ws[i := (ws ! i)\<lparr>is_closed := True\<rparr>]) = checked_out ws - 1"
  using length_filter_update [of i ws "\<lambda>pc. \<not> is_closed pc" "(ws ! i)\<lparr>is_closed := True\<rparr>"]
  by (simp add: checked_out_def)

lemma checked_out_pos:
  assumes "i < length ws" and "\<not> is_closed (ws ! i)"
  shows "0 < checked_out ws"
proof -
  have "ws ! i \<in> set (filter (\<lambda>pc. \<not> is_closed pc) ws)"
    using assms by simp
  then have "0 < length (filter (\<lambda>pc. \<not> is_closed pc) ws)"
    by (rule length_pos_if_in_set)
  then show ?thesis by (simp add: checked_out_def)
qed

lemma close_open:
  "\<not> is_closed pc \<Longrightarrow> 0 < active p \<Longrightarrow>
   close p pc = (p\<lparr>pool := pool p @ [Wrapper (conn pc)]\<rparr>, pc\<lparr>is_closed := True\<rparr>)"
  by (simp add: close_def return_connection_def)

lemma close_closed: "is_closed pc \<Longrightarrow> close p pc = (p, pc)"
  by (simp add: close_def)

lemma pool_step_inv:
  assumes "pool_inv s"
  shows "pool_inv (pool_step s op)"
proof (cases s)
  case (Pair p ws)
  with assms have inv: "active p = int (length (pool p)) + checked_out ws"
    by (simp add: pool_inv_def)
  show ?thesis
  proof (cases op)
    case (Acquire_op created)
    show ?thesis
      using inv unfolding Pair Acquire_op
      by (cases "pool p" rule: rev_cases)
         (auto simp add: pool_inv_def get_connection_def checked_out_append
           split: sum.splits)
  next
    case (Close_op i)
    show ?thesis
    proof (cases "i < length ws \<and> \<not> is_closed (ws ! i)")
      case True
      then have pos: "0 < active p"
        using inv checked_out_pos [of i ws] by simp
      show ?thesis
        using True inv pos checked_out_close [of i ws]
        unfolding Pair Close_op
        by (simp add: pool_inv_def close_open)
    next
      case False
      then show ?thesis
        using inv unfolding Pair Close_op
        by (auto simp add: pool_inv_def close_closed list_update_same_conv)
    qed
  qed
qed

lemma foldl_pool_step_inv: "pool_inv s \<Longrightarrow> pool_inv (foldl pool_step s ops)"
  by (induction ops arbitrary: s) (simp_all add: pool_step_inv)

lemma pool_run_inv: "pool_inv (pool_run (odbc_pool_init mx) ops)"
  unfolding pool_run_def
  by (rule foldl_pool_step_inv) (simp add: pool_inv_def odbc_pool_init_def checked_out_def)

text \<open>
  Claim C2, as stated, fails: after one acquisition and the return of that connection no
  connection is checked out, yet \<open>active_count\<close> is still 1, the value it had before the
  return. \<open>return_connection\<close> never decrements \<open>_active\<close>.
\<close>

theorem return_keeps_active_counterexample:
  "pool_run fresh_pool [Acquire_op (Inr 0)] =
     (fresh_pool\<lparr>active := 1\<rparr>, [\<lparr>conn = Raw 0, is_closed = False\<rparr>]) \<and>
   pool_run fresh_pool [Acquire_op (Inr 0), Close_op 0] =
     (fresh_pool\<lparr>pool := [Wrapper (Raw 0)], active := 1\<rparr>, [\<lparr>conn = Raw 0, is_closed = True\<rparr>]) \<and>
   checked_out (snd (pool_run fresh_pool [Acquire_op (Inr 0), Close_op 0])) = 0 \<and>
   active_count (fst (pool_run fresh_pool [Acquire_op (Inr 0), Close_op 0])) = 1 \<and>
   active_count (fst (pool_run fresh_pool [Acquire_op (Inr 0), Close_op 0])) =
     active_count (fst (pool_run fresh_pool [Acquire_op (Inr 0)]))"
  by (simp add: pool_run_def fresh_pool_def odbc_pool_init_def get_connection_def close_def
      return_connection_def checked_out_def active_count_def)

text \<open>
  Claim C2, amended. In every state reached from a new pool by a sequence of acquisitions
  and closings, \<open>active_count\<close> is the number of connections the pool has created and
  still owns: it equals \<open>available_count\<close> plus the number of connections checked out.
  Closing a wrapper that is checked out re-queues it, so \<open>available_count\<close> increases by
  exactly one, the number checked out decreases by one and \<open>active_count\<close> is unchanged;
  the wrapper is then closed and closing it again changes nothing. \<open>active_count\<close>
  increases by one exactly when an acquisition creates a connection and never decreases.
\<close>

theorem pool_bookkeeping:
  assumes "pool_run (odbc_pool_init mx) ops = (p, ws)"
  shows "active_count p = available_count p + checked_out ws \<and>
         (\<forall>i < length ws. \<not> is_closed (ws ! i) \<longrightarrow>
            available_count (fst (close p (ws ! i))) = available_count p + 1 \<and>
            active_count (fst (close p (ws ! i))) = active_count p \<and>
            is_closed (snd (close p (ws ! i))) \<and>
            close (fst (close p (ws ! i))) (snd (close p (ws ! i))) = close p (ws ! i) \<and>
            checked_out (snd (pool_step (p, ws) (Close_op i))) = checked_out ws - 1) \<and>
         (\<forall>created. active_count (snd (get_connection p created)) =
            (if pool p = [] \<and> active p < max_pool_size p \<and> \<not> isl created
             then active_count p + 1 else active_count p))"
proof -
  have inv: "active p = int (length (pool p)) + checked_out ws"
    using pool_run_inv [of mx ops] assms by (simp add: pool_inv_def)
  have one: "active_count p = available_count p + checked_out ws"
    using inv by (simp add: active_count_def available_count_def)
  have two: "available_count (fst (close p (ws ! i))) = available_count p + 1 \<and>
             active_count (fst (close p (ws ! i))) = active_count p \<and>
             is_closed (snd (close p (ws ! i))) \<and>
             close (fst (close p (ws ! i))) (snd (close p (ws ! i))) = close p (ws ! i) \<and>
             checked_out (snd (pool_step (p, ws) (Close_op i))) = checked_out ws - 1"
    if "i < length ws" and "\<not> is_closed (ws ! i)" for i
  proof -
    have pos: "0 < active p" using inv checked_out_pos [OF that] by simp
    show ?thesis
      using that pos checked_out_close [OF that]
      by (simp add: close_open close_closed active_count_def available_count_def)
  qed
  have three: "active_count (snd (get_connection p created)) =
            (if pool p = [] \<and> active p < max_pool_size p \<and> \<not> isl created
             then active_count p + 1 else active_count p)" for created
    by (auto simp add: get_connection_def active_count_def split: sum.splits)
  from one two three show ?thesis by blast
qed

theorem pool_bookkeeping_witness:
  "pool_run fresh_pool [Acquire_op (Inr 0), Acquire_op (Inr 1), Close_op 0] =
     (fresh_pool\<lparr>pool := [Wrapper (Raw 0)], active := 2\<rparr>,
      [\<lparr>conn = Raw 0, is_closed = True\<rparr>, \<lparr>conn = Raw 1, is_closed = False\<rparr>]) \<and>
   active_count (fresh_pool\<lparr>pool := [Wrapper (Raw 0)], active := 2\<rparr>) =
     available_count (fresh_pool\<lparr>pool := [Wrapper (Raw 0)], active := 2\<rparr>) +
     checked_out [\<lparr>conn = Raw 0, is_closed = True\<rparr>, \<lparr>conn = Raw (1::nat), is_closed = False\<rparr>] \<and>
   available_count (fst (close (fresh_pool\<lparr>pool := [Wrapper (Raw 0)], active := 2\<rparr>)
                          \<lparr>conn = Raw 1, is_closed = False\<rparr>)) =
     available_count (fresh_pool\<lparr>pool := [Wrapper (Raw 0)], active := 2\<rparr>) + 1"
proof -
  let ?p = "fresh_pool\<lparr>pool := [Wrapper (Raw 0)], active := 2\<rparr>"
  let ?ws = "[\<lparr>conn = Raw 0, is_closed = True\<rparr>, \<lparr>conn = Raw (1::nat), is_closed = False\<rparr>]"
  have run: "pool_run (odbc_pool_init 2) [Acquire_op (Inr 0), Acquire_op (Inr 1), Close_op 0] =
               (?p, ?ws)"
    by (simp add: pool_run_def fresh_pool_def odbc_pool_init_def get_connection_def close_def
        return_connection_def)
  have i: "(1::nat) < length ?ws" and o: "\<not> is_closed (?ws ! 1)" by simp_all
  note T = pool_bookkeeping [OF run]
  have a: "active_count ?p = available_count ?p + checked_out ?ws"
    using T [THEN conjunct1] .
  have b: "available_count (fst (close ?p (?ws ! 1))) = available_count ?p + 1"
    using T [THEN conjunct2, THEN conjunct1, rule_format, OF i o] by blast
  from run a b show ?thesis by (simp add: fresh_pool_def)
qed


end
